theory Spec2Isabelle
  imports Main
begin

section \<open>Python values used by the program\<close>

text \<open>
  The program is a single Python module, \<^verbatim>\<open>main.py\<close>. Its integers are unbounded
  (\<^typ>\<open>int\<close>), its strings are lists of characters, and every exception it can meet is a
  \<^verbatim>\<open>ValueError\<close> or an \<^verbatim>\<open>OverflowError\<close> carrying a message.
\<close>

datatype py_error = ValueError string | OverflowError string

definition digit_char :: "nat \<Rightarrow> char" where
  "digit_char n = char_of (48 + n)"

fun str_nat :: "nat \<Rightarrow> string" where
  "str_nat n = (if n < 10 then [digit_char n] else str_nat (n div 10) @ [digit_char (n mod 10)])"

declare str_nat.simps [simp del]

text \<open>\<^verbatim>\<open>str(i)\<close>, as an f-string renders an integer.\<close>

definition str_int :: "int \<Rightarrow> string" where
  "str_int i = (if i < 0 then CHR ''-'' # str_nat (nat (- i)) else str_nat (nat i))"

definition zfill :: "nat \<Rightarrow> string \<Rightarrow> string" where
  "zfill w s = replicate (w - length s) CHR ''0'' @ s"

section \<open>\<^verbatim>\<open>datetime.date\<close>\<close>

text \<open>
  The calendar arithmetic is the one of the reference implementation of the
  \<^verbatim>\<open>datetime\<close> module (\<^verbatim>\<open>_pydatetime.py\<close>): proleptic Gregorian ordinals, with
  1 January of year 1 as day 1. The texts of the \<^verbatim>\<open>OverflowError\<close> messages are those
  of the C module, which is the one a CPython process loads.
\<close>

datatype date = Date (year: int) (month: int) (day: int)

definition MINYEAR :: int where "MINYEAR = 1"
definition MAXYEAR :: int where "MAXYEAR = 9999"
definition MAXORDINAL :: int where "MAXORDINAL = 3652059"

definition DAYS_IN_MONTH :: "int list" where
  "DAYS_IN_MONTH = [-1, 31, 28, 31, 30, 31, 30, 31, 31, 30, 31, 30, 31]"

text \<open>The module builds \<^verbatim>\<open>_DAYS_BEFORE_MONTH\<close> with a loop over \<^verbatim>\<open>_DAYS_IN_MONTH[1:]\<close>.\<close>

fun dbm_loop :: "int \<Rightarrow> int list \<Rightarrow> int list" where
  "dbm_loop dbm [] = []"
| "dbm_loop dbm (dim # rest) = dbm # dbm_loop (dbm + dim) rest"

definition DAYS_BEFORE_MONTH :: "int list" where
  "DAYS_BEFORE_MONTH = -1 # dbm_loop 0 (tl DAYS_IN_MONTH)"

definition is_leap :: "int \<Rightarrow> bool" where
  "is_leap y \<longleftrightarrow> y mod 4 = 0 \<and> (y mod 100 \<noteq> 0 \<or> y mod 400 = 0)"

definition days_before_year :: "int \<Rightarrow> int" where
  "days_before_year yr = (let y = yr - 1 in y * 365 + y div 4 - y div 100 + y div 400)"

definition days_in_month :: "int \<Rightarrow> int \<Rightarrow> int" where
  "days_in_month y m = (if m = 2 \<and> is_leap y then 29 else DAYS_IN_MONTH ! nat m)"

definition days_before_month :: "int \<Rightarrow> int \<Rightarrow> int" where
  "days_before_month y m = DAYS_BEFORE_MONTH ! nat m + (if m > 2 \<and> is_leap y then 1 else 0)"

definition ymd2ord :: "int \<Rightarrow> int \<Rightarrow> int \<Rightarrow> int" where
  "ymd2ord y m d = days_before_year y + days_before_month y m + d"

definition DI400Y :: int where "DI400Y = days_before_year 401"
definition DI100Y :: int where "DI100Y = days_before_year 101"
definition DI4Y :: int where "DI4Y = days_before_year 5"

text \<open>
  \<^verbatim>\<open>_ord2ymd\<close>. Python's \<^verbatim>\<open>divmod\<close> by a positive number is \<open>div\<close> and \<open>mod\<close> on
  \<^typ>\<open>int\<close>, and \<^verbatim>\<open>(n + 50) >> 5\<close> is division by 32. The function's three
  \<^verbatim>\<open>assert\<close> statements are not branches here: lemma \<open>ord2ymd_correct\<close> below shows
  what they check.
\<close>

definition ord2ymd :: "int \<Rightarrow> int \<times> int \<times> int" where
  "ord2ymd n0 =
    (let n = n0 - 1;
         n400 = n div DI400Y; n = n mod DI400Y;
         yr = n400 * 400 + 1;
         n100 = n div DI100Y; n = n mod DI100Y;
         n4 = n div DI4Y; n = n mod DI4Y;
         n1 = n div 365; n = n mod 365;
         yr = yr + (n100 * 100 + n4 * 4 + n1)
     in if n1 = 4 \<or> n100 = 4 then (yr - 1, 12, 31)
        else
          let leapyear = (n1 = 3 \<and> (n4 \<noteq> 24 \<or> n100 = 3));
              mo = (n + 50) div 32;
              preceding = DAYS_BEFORE_MONTH ! nat mo + (if mo > 2 \<and> leapyear then 1 else 0)
          in if preceding > n then
               (let mo = mo - 1;
                    preceding = preceding - (DAYS_IN_MONTH ! nat mo + (if mo = 2 \<and> leapyear then 1 else 0))
                in (yr, mo, n - preceding + 1))
             else (yr, mo, n - preceding + 1))"

text \<open>
  The constructor \<^verbatim>\<open>date(year, month, day)\<close> with its \<^verbatim>\<open>_check_date_fields\<close>. The
  texts of these messages never reach the user of the program.
\<close>

definition date_new :: "int \<Rightarrow> int \<Rightarrow> int \<Rightarrow> py_error + date" where
  "date_new y m d =
     (if \<not> (MINYEAR \<le> y \<and> y \<le> MAXYEAR) then Inl (ValueError ''year must be in 1..9999'')
      else if \<not> (1 \<le> m \<and> m \<le> 12) then Inl (ValueError ''month must be in 1..12'')
      else if \<not> (1 \<le> d \<and> d \<le> days_in_month y m)
        then Inl (ValueError (''day must be in 1..'' @ str_int (days_in_month y m)))
      else Inr (Date y m d))"

text \<open>The invariant of every \<^verbatim>\<open>date\<close> object: it went through the constructor.\<close>

definition valid_date :: "date \<Rightarrow> bool" where
  "valid_date dt \<longleftrightarrow>
     MINYEAR \<le> year dt \<and> year dt \<le> MAXYEAR \<and> 1 \<le> month dt \<and> month dt \<le> 12
     \<and> 1 \<le> day dt \<and> day dt \<le> days_in_month (year dt) (month dt)"

definition toordinal :: "date \<Rightarrow> int" where
  "toordinal dt = ymd2ord (year dt) (month dt) (day dt)"

definition fromordinal :: "int \<Rightarrow> py_error + date" where
  "fromordinal n = (case ord2ymd n of (y, m, d) \<Rightarrow> date_new y m d)"

text \<open>
  \<^verbatim>\<open>datetime.timedelta(days=d)\<close>: only the day count matters to the program. The
  constructor refuses a count beyond 999999999 in magnitude, with one of two messages:
  the count does not fit the C \<^verbatim>\<open>int\<close> it is stored in, or it is out of the range of
  a \<^verbatim>\<open>timedelta\<close>.
\<close>

definition timedelta_error :: "int \<Rightarrow> string" where
  "timedelta_error d =
     (if d > 2147483647 \<or> d < - 2147483648 then ''Python int too large to convert to C int''
      else ''days='' @ str_int d @ ''; must have magnitude <= 999999999'')"

definition timedelta :: "int \<Rightarrow> py_error + int" where
  "timedelta d =
     (if \<bar>d\<bar> > 999999999 then Inl (OverflowError (timedelta_error d)) else Inr d)"

text \<open>\<^verbatim>\<open>date.__add__\<close> for a \<^verbatim>\<open>timedelta\<close> of \<open>days\<close> days.\<close>

definition date_add :: "date \<Rightarrow> int \<Rightarrow> py_error + date" where
  "date_add dt days =
     (let o' = toordinal dt + days
      in if 0 < o' \<and> o' \<le> MAXORDINAL then fromordinal o'
         else Inl (OverflowError ''date value out of range''))"

text \<open>Python compares dates as the tuples (year, month, day).\<close>

definition date_le :: "date \<Rightarrow> date \<Rightarrow> bool" where
  "date_le a b \<longleftrightarrow>
     year a < year b \<or> (year a = year b \<and> (month a < month b \<or> (month a = month b \<and> day a \<le> day b)))"

definition month_tail :: "int \<Rightarrow> bool \<Rightarrow> int \<Rightarrow> int \<times> int \<times> int" where
  "month_tail yr leapyear n =
     (let mo = (n + 50) div 32;
          preceding = DAYS_BEFORE_MONTH ! nat mo + (if mo > 2 \<and> leapyear then 1 else 0)
      in if preceding > n then
           (let mo = mo - 1;
                preceding = preceding - (DAYS_IN_MONTH ! nat mo + (if mo = 2 \<and> leapyear then 1 else 0))
            in (yr, mo, n - preceding + 1))
         else (yr, mo, n - preceding + 1))"

definition month_tail_ok :: "bool \<Rightarrow> int \<Rightarrow> bool" where
  "month_tail_ok leapyear n =
     (case month_tail 0 leapyear n of (y, m, d) \<Rightarrow>
        1 \<le> m \<and> m \<le> 12 \<and> 1 \<le> d
        \<and> d \<le> (if m = 2 \<and> leapyear then 29 else DAYS_IN_MONTH ! nat m)
        \<and> DAYS_BEFORE_MONTH ! nat m + (if m > 2 \<and> leapyear then 1 else 0) + d = n + 1)"

section \<open>\<^verbatim>\<open>datetime.strptime\<close> with the format \<^verbatim>\<open>%Y-%m-%d\<close>\<close>

text \<open>
  \<^verbatim>\<open>_strptime\<close> turns the format into a regular expression and matches it at the start
  of the input with a backtracking matcher. A matcher is modelled by the list of its
  successes, in the order in which backtracking tries them: each success is the text
  consumed and the text left.
\<close>

type_synonym matcher = "string \<Rightarrow> (string \<times> string) list"

definition re_class :: "(char \<Rightarrow> bool) \<Rightarrow> matcher" where
  "re_class p s = (case s of [] \<Rightarrow> [] | c # rest \<Rightarrow> if p c then [([c], rest)] else [])"

definition re_seq :: "matcher \<Rightarrow> matcher \<Rightarrow> matcher" where
  "re_seq a b s = concat (map (\<lambda>(x, r). map (\<lambda>(y, r'). (x @ y, r')) (b r)) (a s))"

definition re_alt :: "matcher \<Rightarrow> matcher \<Rightarrow> matcher" where
  "re_alt a b s = a s @ b s"

definition in_range :: "char \<Rightarrow> char \<Rightarrow> char \<Rightarrow> bool" where
  "in_range lo hi c \<longleftrightarrow> (of_char lo :: nat) \<le> of_char c \<and> (of_char c :: nat) \<le> of_char hi"

text \<open>
  \<^verbatim>\<open>\d\<close> matches the ten ASCII digits; on a Python string it also matches the other
  Unicode decimal digits, none of which is an 8-bit character.
\<close>

definition re_digit :: matcher where
  "re_digit = re_class (in_range CHR ''0'' CHR ''9'')"

definition re_lit :: "char \<Rightarrow> matcher" where
  "re_lit k = re_class (\<lambda>c. c = k)"

text \<open>\<^verbatim>\<open>(?P<Y>\d\d\d\d)\<close>\<close>

definition re_Y :: matcher where
  "re_Y = re_seq re_digit (re_seq re_digit (re_seq re_digit re_digit))"

text \<open>\<^verbatim>\<open>(?P<m>1[0-2]|0[1-9]|[1-9])\<close>\<close>

definition re_m :: matcher where
  "re_m = re_alt (re_seq (re_lit CHR ''1'') (re_class (in_range CHR ''0'' CHR ''2'')))
         (re_alt (re_seq (re_lit CHR ''0'') (re_class (in_range CHR ''1'' CHR ''9'')))
                 (re_class (in_range CHR ''1'' CHR ''9'')))"

text \<open>\<^verbatim>\<open>(?P<d>3[0-1]|[1-2]\d|0[1-9]|[1-9]| [1-9])\<close>\<close>

definition re_d :: matcher where
  "re_d = re_alt (re_seq (re_lit CHR ''3'') (re_class (in_range CHR ''0'' CHR ''1'')))
         (re_alt (re_seq (re_class (in_range CHR ''1'' CHR ''2'')) re_digit)
         (re_alt (re_seq (re_lit CHR ''0'') (re_class (in_range CHR ''1'' CHR ''9'')))
         (re_alt (re_class (in_range CHR ''1'' CHR ''9''))
                 (re_seq (re_lit CHR '' '') (re_class (in_range CHR ''1'' CHR ''9''))))))"

text \<open>The whole expression: the three groups of each success, and the text left.\<close>

definition format_regex :: "string \<Rightarrow> ((string \<times> string \<times> string) \<times> string) list" where
  "format_regex s =
     concat (map (\<lambda>(Y, r1).
       concat (map (\<lambda>(h1, r2).
         concat (map (\<lambda>(m, r3).
           concat (map (\<lambda>(h2, r4).
             map (\<lambda>(d, r5). ((Y, m, d), r5)) (re_d r4))
           (re_lit CHR ''-'' r3)))
         (re_m r2)))
       (re_lit CHR ''-'' r1)))
     (re_Y s))"

text \<open>\<^verbatim>\<open>int(group)\<close> on a matched group: decimal digits, after an optional blank.\<close>

definition py_int :: "string \<Rightarrow> int" where
  "py_int s = int (foldl (\<lambda>a c. 10 * a + (of_char c - 48)) 0 (dropWhile (\<lambda>c. c = CHR '' '') s))"

text \<open>
  \<^verbatim>\<open>datetime.datetime.strptime(date_str, "%Y-%m-%d").date()\<close>: \<^verbatim>\<open>re.match\<close> takes the
  first success, the whole input has to be consumed, and the three numbers have to pass
  the \<^verbatim>\<open>date\<close> constructor. The two messages of \<^verbatim>\<open>_strptime\<close> quote the input with
  \<^verbatim>\<open>repr\<close>, which is left out: the caller throws the message away.
\<close>

definition strptime :: "string \<Rightarrow> py_error + date" where
  "strptime data_string =
     (case format_regex data_string of
        [] \<Rightarrow> Inl (ValueError ''time data does not match format'')
      | ((Y, m, d), rest) # _ \<Rightarrow>
          if rest \<noteq> [] then Inl (ValueError (''unconverted data remains: '' @ rest))
          else date_new (py_int Y) (py_int m) (py_int d))"

section \<open>\<^verbatim>\<open>date.strftime\<close>\<close>

text \<open>
  \<^verbatim>\<open>date.strftime\<close> hands the format to the \<^verbatim>\<open>strftime\<close> of the C library. Every C
  library renders \<^verbatim>\<open>%m\<close> and \<^verbatim>\<open>%d\<close> with two digits and \<^verbatim>\<open>%%\<close> as a percent
  sign. They differ on \<^verbatim>\<open>%Y\<close> for a year below 1000: some pad it with zeros to four
  digits, and some (glibc, under CPython 3.11) print the year as it is. What any other
  directive, or a lone final \<^verbatim>\<open>%\<close>, gives is left to the platform too.
\<close>

record platform =
  pads_year :: bool
  other_directive :: "char option \<Rightarrow> date \<Rightarrow> py_error + string"

definition directive :: "platform \<Rightarrow> date \<Rightarrow> char \<Rightarrow> py_error + string" where
  "directive pf dt k =
     (if k = CHR ''Y''
        then Inr (if pads_year pf then zfill 4 (str_int (year dt)) else str_int (year dt))
      else if k = CHR ''m'' then Inr (zfill 2 (str_int (month dt)))
      else if k = CHR ''d'' then Inr (zfill 2 (str_int (day dt)))
      else if k = CHR ''%'' then Inr ''%''
      else other_directive pf (Some k) dt)"

fun strftime :: "platform \<Rightarrow> date \<Rightarrow> string \<Rightarrow> py_error + string" where
  "strftime pf dt [] = Inr []"
| "strftime pf dt [c] = (if c = CHR ''%'' then other_directive pf None dt else Inr [c])"
| "strftime pf dt (c # k # fmt) =
     (if c = CHR ''%'' then
        (case directive pf dt k of
           Inl e \<Rightarrow> Inl e
         | Inr piece \<Rightarrow> (case strftime pf dt fmt of Inl e \<Rightarrow> Inl e | Inr s \<Rightarrow> Inr (piece @ s)))
      else (case strftime pf dt (k # fmt) of Inl e \<Rightarrow> Inl e | Inr s \<Rightarrow> Inr (c # s)))"

text \<open>
  Two platforms that copy the directives they do not know: \<open>pf_copy\<close> prints the year
  as it is, \<open>pf_padded\<close> pads it.
\<close>

definition copy_directive :: "char option \<Rightarrow> date \<Rightarrow> py_error + string" where
  "copy_directive k dt = Inr (case k of None \<Rightarrow> ''%'' | Some c \<Rightarrow> [CHR ''%'', c])"

definition pf_copy :: platform where
  "pf_copy = \<lparr>pads_year = False, other_directive = copy_directive\<rparr>"

definition pf_padded :: platform where
  "pf_padded = \<lparr>pads_year = True, other_directive = copy_directive\<rparr>"

section \<open>\<^verbatim>\<open>random.randint\<close>\<close>

text \<open>
  The state of the process-wide generator is the sequence of numbers its coming calls
  will deliver. \<^verbatim>\<open>_randbelow(n)\<close> returns a number below \<open>n\<close> and advances the
  generator: the first number of the sequence, reduced modulo \<open>n\<close>. Every number below
  \<open>n\<close> is delivered by some state; how likely each one is is not part of the model.
\<close>

type_synonym rng = "nat \<Rightarrow> nat"

definition randbelow :: "nat \<Rightarrow> rng \<Rightarrow> nat \<times> rng" where
  "randbelow n g = (g 0 mod n, (\<lambda>i. g (Suc i)))"

text \<open>A generator whose every number is \<open>k\<close>.\<close>

definition rng_const :: "nat \<Rightarrow> rng" where
  "rng_const k = (\<lambda>i. k)"

definition randrange :: "int \<Rightarrow> int \<Rightarrow> rng \<Rightarrow> (py_error + int) \<times> rng" where
  "randrange start stop g =
     (let width = stop - start
      in if width > 0 then (case randbelow (nat width) g of (k, g') \<Rightarrow> (Inr (start + int k), g'))
         else (Inl (ValueError ''empty range in randrange''), g))"

definition randint :: "int \<Rightarrow> int \<Rightarrow> rng \<Rightarrow> (py_error + int) \<times> rng" where
  "randint a b g = randrange a (b + 1) g"

section \<open>The program\<close>

definition invalid_format_msg :: string where
  "invalid_format_msg = ''Invalid date format. Please use YYYY-MM-DD (e.g., 2023-10-26).''"

definition validate_date :: "string \<Rightarrow> py_error + date" where
  "validate_date date_str =
     (case strptime date_str of
        Inr date_obj \<Rightarrow> Inr date_obj
      | Inl (ValueError msg) \<Rightarrow> Inl (ValueError invalid_format_msg)
      | Inl e \<Rightarrow> Inl e)"

definition range_error_msg :: "int \<Rightarrow> int \<Rightarrow> string" where
  "range_error_msg range_days max_range =
     ''The specified range ('' @ str_int range_days
       @ '') exceeds the maximum allowed range ('' @ str_int max_range @ '').''"

text \<open>
  \<^verbatim>\<open>inject_date_variance\<close>, with the generator passed in and returned: a call that
  raises before the draw leaves it as it was.
\<close>

definition inject_date_variance :: "date \<Rightarrow> int \<Rightarrow> int \<Rightarrow> rng \<Rightarrow> (py_error + date) \<times> rng" where
  "inject_date_variance date_obj range_days max_range g =
     (if \<bar>range_days\<bar> > max_range
      then (Inl (ValueError (range_error_msg range_days max_range)), g)
      else
        (case randint (- \<bar>range_days\<bar>) \<bar>range_days\<bar> g of
           (Inl e, g') \<Rightarrow> (Inl e, g')
         | (Inr variance, g') \<Rightarrow>
             (case timedelta variance of
                Inl e \<Rightarrow> (Inl e, g')
              | Inr days \<Rightarrow> (date_add date_obj days, g'))))"

text \<open>
  What a run leaves behind: the lines printed on standard output, the records logged on
  standard error and the exit status. The module configures the log format
  \<^verbatim>\<open>%(asctime)s - %(levelname)s - %(message)s\<close>, so a record is logged with three
  fields: the time of the call as the clock gives it, the level and the message.
\<close>

record outcome =
  stdout :: "string list"
  stderr :: "(string \<times> string \<times> string) list"
  exit_code :: int

record args =
  arg_date :: string
  arg_range :: int
  arg_max_range :: int
  arg_format :: string

definition default_format :: string where
  "default_format = ''%Y-%m-%d''"

text \<open>
  The two \<^verbatim>\<open>except\<close> clauses of \<^verbatim>\<open>main\<close>; \<open>asctime\<close> is the reading of the clock
  when \<^verbatim>\<open>logging.error\<close> is called.
\<close>

definition handle :: "string \<Rightarrow> py_error \<Rightarrow> outcome" where
  "handle asctime e =
     (case e of
        ValueError msg \<Rightarrow>
          \<lparr>stdout = [], stderr = [(asctime, ''ERROR'', ''Error: '' @ msg)], exit_code = 1\<rparr>
      | OverflowError msg \<Rightarrow>
          \<lparr>stdout = [],
           stderr = [(asctime, ''ERROR'', ''An unexpected error occurred: '' @ msg)],
           exit_code = 1\<rparr>)"

text \<open>
  \<^verbatim>\<open>main\<close>, on the parsed command line \<open>a\<close>, with the state \<open>g\<close> of the generator and
  the reading \<open>asctime\<close> of the clock.
\<close>

definition main :: "platform \<Rightarrow> args \<Rightarrow> rng \<Rightarrow> string \<Rightarrow> outcome" where
  "main pf a g asctime =
     (case validate_date (arg_date a) of
        Inl e \<Rightarrow> handle asctime e
      | Inr date_obj \<Rightarrow>
          (case fst (inject_date_variance date_obj (arg_range a) (arg_max_range a) g) of
             Inl e \<Rightarrow> handle asctime e
           | Inr modified_date \<Rightarrow>
               (case strftime pf modified_date (arg_format a) of
                  Inl e \<Rightarrow> handle asctime e
                | Inr formatted_date \<Rightarrow>
                    \<lparr>stdout = [formatted_date], stderr = [], exit_code = 0\<rparr>)))"

text \<open>A reading of the clock, as \<^verbatim>\<open>%(asctime)s\<close> prints it, and another a second later.\<close>

definition noon :: string where
  "noon = ''2023-10-26 12:00:00,000''"



text \<open>The part of \<open>format_regex\<close> that follows the year group.\<close>

definition md_matches :: "string \<Rightarrow> ((string \<times> string) \<times> string) list" where
  "md_matches r1 =
     concat (map (\<lambda>(h1, r2).
       concat (map (\<lambda>(m, r3).
         concat (map (\<lambda>(h2, r4).
           map (\<lambda>(d, r5). ((m, d), r5)) (re_d r4))
         (re_lit CHR ''-'' r3)))
       (re_m r2)))
     (re_lit CHR ''-'' r1))"

section \<open>The date pattern of the specification\<close>

text \<open>
  The pattern \<^verbatim>\<open>YYYY-MM-DD\<close> as the specification words it: four digits, a hyphen, two
  digits, a hyphen, two digits. Its three numbers are read off by position.
\<close>

definition is_digit :: "char \<Rightarrow> bool" where
  "is_digit c = in_range CHR ''0'' CHR ''9'' c"



text \<open>
  What the parser accepts for the month and for the day: one digit, or two digits with a
  zero in front where the number is below ten; the day also as a blank and a digit.
\<close>

definition month_text :: "string \<Rightarrow> bool" where
  "month_text M \<longleftrightarrow>
     (case M of
        [c] \<Rightarrow> in_range CHR ''1'' CHR ''9'' c
      | [c1, c2] \<Rightarrow> (c1 = CHR ''1'' \<and> in_range CHR ''0'' CHR ''2'' c2)
                    \<or> (c1 = CHR ''0'' \<and> in_range CHR ''1'' CHR ''9'' c2)
      | _ \<Rightarrow> False)"

definition day_text :: "string \<Rightarrow> bool" where
  "day_text D \<longleftrightarrow>
     (case D of
        [c] \<Rightarrow> in_range CHR ''1'' CHR ''9'' c
      | [c1, c2] \<Rightarrow> (c1 = CHR ''3'' \<and> in_range CHR ''0'' CHR ''1'' c2)
                    \<or> (in_range CHR ''1'' CHR ''2'' c1 \<and> is_digit c2)
                    \<or> (c1 = CHR ''0'' \<and> in_range CHR ''1'' CHR ''9'' c2)
                    \<or> (c1 = CHR '' '' \<and> in_range CHR ''1'' CHR ''9'' c2)
      | _ \<Rightarrow> False)"

definition accepted_text :: "string \<Rightarrow> string \<Rightarrow> string \<Rightarrow> string \<Rightarrow> bool" where
  "accepted_text s Y M D \<longleftrightarrow>
     s = Y @ ''-'' @ M @ ''-'' @ D \<and> length Y = 4 \<and> list_all is_digit Y
     \<and> month_text M \<and> day_text D"

section \<open>The calendar: ordinals and dates\<close>

lemma DAYS_BEFORE_MONTH_tab:
  "DAYS_BEFORE_MONTH = [-1, 0, 31, 59, 90, 120, 151, 181, 212, 243, 273, 304, 334]"
  by (simp add: DAYS_BEFORE_MONTH_def DAYS_IN_MONTH_def)

lemma DI_consts: "DI400Y = 146097" "DI100Y = 36524" "DI4Y = 1461"
  by (simp_all add: DI400Y_def DI100Y_def DI4Y_def days_before_year_def)

lemma dby_digits:
  assumes "0 \<le> n100" "n100 \<le> 3" "0 \<le> n4" "n4 \<le> 24" "0 \<le> n1" "n1 \<le> 3"
  shows "days_before_year (n400 * 400 + 1 + (n100 * 100 + n4 * 4 + n1))
         = 146097 * n400 + 36524 * n100 + 1461 * n4 + 365 * n1"
proof -
  let ?y = "n400 * 400 + n100 * 100 + n4 * 4 + n1"
  have a: "?y div 4 = 100 * n400 + 25 * n100 + n4"
    by (rule int_div_pos_eq [where r = n1]) (use assms in auto)
  have b: "?y div 100 = 4 * n400 + n100"
    by (rule int_div_pos_eq [where r = "4 * n4 + n1"]) (use assms in auto)
  have c: "?y div 400 = n400"
    by (rule int_div_pos_eq [where r = "100 * n100 + 4 * n4 + n1"]) (use assms in auto)
  have e: "n400 * 400 + 1 + (n100 * 100 + n4 * 4 + n1) - 1 = ?y" by simp
  show ?thesis unfolding days_before_year_def Let_def e a b c by simp
qed

lemma leap_digits:
  assumes "0 \<le> n100" "n100 \<le> 3" "0 \<le> n4" "n4 \<le> 24" "0 \<le> n1" "n1 \<le> 3"
  shows "is_leap (n400 * 400 + 1 + (n100 * 100 + n4 * 4 + n1))
         \<longleftrightarrow> (n1 = 3 \<and> (n4 \<noteq> 24 \<or> n100 = 3))"
proof -
  let ?y = "n400 * 400 + 1 + (n100 * 100 + n4 * 4 + n1)"
  have m4: "?y mod 4 = (n1 + 1) mod 4"
  proof -
    have "?y = (n1 + 1) + 4 * (100 * n400 + 25 * n100 + n4)" by simp
    then show ?thesis by (metis mod_mult_self2)
  qed
  have m100: "?y mod 100 = (4 * n4 + n1 + 1) mod 100"
  proof -
    have "?y = (4 * n4 + n1 + 1) + 100 * (4 * n400 + n100)" by simp
    then show ?thesis by (metis mod_mult_self2)
  qed
  have m400: "?y mod 400 = (100 * n100 + 4 * n4 + n1 + 1) mod 400"
  proof -
    have "?y = (100 * n100 + 4 * n4 + n1 + 1) + 400 * n400" by simp
    then show ?thesis by (metis mod_mult_self2)
  qed
  have r4: "(n1 + 1) mod 4 = 0 \<longleftrightarrow> n1 = 3"
  proof (cases "n1 = 3")
    case True then show ?thesis by simp
  next
    case False
    then have "(n1 + 1) mod 4 = n1 + 1" using assms by (intro mod_pos_pos_trivial) auto
    then show ?thesis using False assms by simp
  qed
  have r100: "(4 * n4 + n1 + 1) mod 100 = 0 \<longleftrightarrow> n4 = 24 \<and> n1 = 3"
  proof (cases "n4 = 24 \<and> n1 = 3")
    case True then show ?thesis by simp
  next
    case False
    then have "4 * n4 + n1 + 1 < 100" using assms by auto
    then have "(4 * n4 + n1 + 1) mod 100 = 4 * n4 + n1 + 1" using assms by (intro mod_pos_pos_trivial) auto
    then show ?thesis using False assms by simp
  qed
  have r400: "(100 * n100 + 4 * n4 + n1 + 1) mod 400 = 0 \<longleftrightarrow> n100 = 3 \<and> n4 = 24 \<and> n1 = 3"
  proof (cases "n100 = 3 \<and> n4 = 24 \<and> n1 = 3")
    case True then show ?thesis by simp
  next
    case False
    then have "100 * n100 + 4 * n4 + n1 + 1 < 400" using assms by auto
    then have "(100 * n100 + 4 * n4 + n1 + 1) mod 400 = 100 * n100 + 4 * n4 + n1 + 1"
      using assms by (intro mod_pos_pos_trivial) auto
    then show ?thesis using False assms by simp
  qed
  show ?thesis unfolding is_leap_def m4 m100 m400 r4 r100 r400 by auto
qed


lemma month_tail_all: "\<forall>n \<in> set [0..364]. month_tail_ok True n \<and> month_tail_ok False n"
  by code_simp

lemma month_tail_okI: "0 \<le> n \<Longrightarrow> n < 365 \<Longrightarrow> month_tail_ok l n"
  using month_tail_all by (cases l) auto

lemma month_tail_yr: "month_tail yr l n = (yr, snd (month_tail 0 l n))"
  by (simp add: month_tail_def Let_def)

lemma tabs: 
  "DAYS_IN_MONTH ! 12 = 31" "DAYS_BEFORE_MONTH ! 12 = 334"
  by (simp_all add: DAYS_IN_MONTH_def DAYS_BEFORE_MONTH_tab)

lemma ord2ymd_digits:
  "ord2ymd n0 =
    (let n400 = (n0 - 1) div 146097; r1 = (n0 - 1) mod 146097;
         n100 = r1 div 36524; r2 = r1 mod 36524;
         n4 = r2 div 1461; r3 = r2 mod 1461;
         n1 = r3 div 365; r4 = r3 mod 365;
         yr = n400 * 400 + 1 + (n100 * 100 + n4 * 4 + n1)
     in if n1 = 4 \<or> n100 = 4 then (yr - 1, 12, 31)
        else month_tail yr (n1 = 3 \<and> (n4 \<noteq> 24 \<or> n100 = 3)) r4)"
  unfolding ord2ymd_def month_tail_def DI_consts Let_def by (rule refl)

lemma ord2ymd_correct:
  assumes "ord2ymd n0 = (y, m, d)"
  shows "1 \<le> m \<and> m \<le> 12 \<and> 1 \<le> d \<and> d \<le> days_in_month y m \<and> ymd2ord y m d = n0"
proof -
  define n400 where "n400 = (n0 - 1) div 146097"
  define r1 where "r1 = (n0 - 1) mod 146097"
  define n100 where "n100 = r1 div 36524"
  define r2 where "r2 = r1 mod 36524"
  define n4 where "n4 = r2 div 1461"
  define r3 where "r3 = r2 mod 1461"
  define n1 where "n1 = r3 div 365"
  define r4 where "r4 = r3 mod 365"
  define yr where "yr = n400 * 400 + 1 + (n100 * 100 + n4 * 4 + n1)"
  have r1b: "0 \<le> r1" "r1 < 146097" by (simp_all add: r1_def)
  have r2b: "0 \<le> r2" "r2 < 36524" by (simp_all add: r2_def)
  have r3b: "0 \<le> r3" "r3 < 1461" by (simp_all add: r3_def)
  have r4b: "0 \<le> r4" "r4 < 365" by (simp_all add: r4_def)
  have e0: "n0 - 1 = 146097 * n400 + r1" by (simp add: n400_def r1_def)
  have e1: "r1 = 36524 * n100 + r2" by (simp add: n100_def r2_def)
  have e2: "r2 = 1461 * n4 + r3" by (simp add: n4_def r3_def)
  have e3: "r3 = 365 * n1 + r4" by (simp add: n1_def r4_def)
  have n100b: "0 \<le> n100" "n100 \<le> 4" using r1b e1 r2b by linarith+
  have n4b: "0 \<le> n4" "n4 \<le> 24" using r2b e2 r3b by linarith+
  have n1b: "0 \<le> n1" "n1 \<le> 4" using r3b e3 r4b by linarith+
  have total: "n0 = 146097 * n400 + 36524 * n100 + 1461 * n4 + 365 * n1 + r4 + 1"
    using e0 e1 e2 e3 by linarith
  have unf: "ord2ymd n0 = (if n1 = 4 \<or> n100 = 4 then (yr - 1, 12, 31)
        else month_tail yr (n1 = 3 \<and> (n4 \<noteq> 24 \<or> n100 = 3)) r4)"
    unfolding ord2ymd_digits Let_def yr_def n1_def r4_def r3_def n4_def r2_def n100_def r1_def n400_def ..
  show ?thesis
  proof (cases "n1 = 4 \<or> n100 = 4")
    case True
    then have res: "y = yr - 1" "m = 12" "d = 31" using assms unf by auto
    show ?thesis
    proof (cases "n100 = 4")
      case True
      then have z: "r2 = 0" "n4 = 0" "r3 = 0" "n1 = 0" "r4 = 0"
        using r1b e1 r2b e2 r3b e3 r4b n4b n1b by linarith+
      have yy: "y = n400 * 400 + 1 + (3 * 100 + 24 * 4 + 3)" using res True z by (simp add: yr_def)
      have d1: "days_before_year y = 146097 * n400 + 36524 * 3 + 1461 * 24 + 365 * 3"
        unfolding yy by (rule dby_digits) simp_all
      have l1: "is_leap y" unfolding yy by (subst leap_digits) simp_all
      show ?thesis using d1 l1 total True z res
        by (simp add: ymd2ord_def days_in_month_def days_before_month_def tabs)
    next
      case False
      with True have n14: "n1 = 4" by simp
      then have z: "r4 = 0" "r3 = 1460" using r3b e3 r4b by linarith+
      have n4s: "n4 \<le> 23" using z e2 r2b by linarith
      have n100s: "n100 \<le> 3" using False n100b by linarith
      have yy: "y = n400 * 400 + 1 + (n100 * 100 + n4 * 4 + 3)" using res n14 by (simp add: yr_def)
      have d1: "days_before_year y = 146097 * n400 + 36524 * n100 + 1461 * n4 + 365 * 3"
        unfolding yy by (rule dby_digits) (use n100b n100s n4b in simp_all)
      have l1: "is_leap y" unfolding yy by (subst leap_digits) (use n100b n100s n4b n4s in simp_all)
      show ?thesis using d1 l1 total n14 z res
        by (simp add: ymd2ord_def days_in_month_def days_before_month_def tabs)
    qed
  next
    case False
    define lp where "lp \<longleftrightarrow> (n1 = 3 \<and> (n4 \<noteq> 24 \<or> n100 = 3))"
    from False have b: "n1 \<le> 3" "n100 \<le> 3" using n1b n100b by linarith+
    have "month_tail yr lp r4 = (y, m, d)" using assms unf False by (simp add: lp_def)
    then have res: "y = yr" "month_tail 0 lp r4 = (0, m, d)"
      using month_tail_yr [of yr lp r4] month_tail_yr [of 0 lp r4] by simp_all
    have d1: "days_before_year y = 146097 * n400 + 36524 * n100 + 1461 * n4 + 365 * n1"
      unfolding res yr_def by (rule dby_digits) (use n100b n4b n1b b in simp_all)
    have l1: "is_leap y \<longleftrightarrow> lp" unfolding res yr_def lp_def
      by (rule leap_digits) (use n100b n4b n1b b in simp_all)
    have "month_tail_ok lp r4" using r4b by (rule month_tail_okI)
    then have mt: "1 \<le> m" "m \<le> 12" "1 \<le> d"
       "d \<le> (if m = 2 \<and> lp then 29 else DAYS_IN_MONTH ! nat m)"
       "DAYS_BEFORE_MONTH ! nat m + (if m > 2 \<and> lp then 1 else 0) + d = r4 + 1"
      using res(2) by (simp_all add: month_tail_ok_def)
    show ?thesis using mt d1 l1 total
      by (simp add: ymd2ord_def days_in_month_def days_before_month_def)
  qed
qed

lemma div_step:
  fixes y k :: int
  assumes "0 < k"
  shows "y div k = (y - 1) div k + (if y mod k = 0 then 1 else 0)"
proof (cases "y mod k = 0")
  case True
  have "(y - 1) div k = y div k - 1"
  proof (rule int_div_pos_eq [where r = "k - 1"])
    have "y = k * (y div k)" using True by (metis add.right_neutral mult_div_mod_eq)
    then show "y - 1 = k * (y div k - 1) + (k - 1)" by (simp add: algebra_simps)
  qed (use assms in auto)
  then show ?thesis using True by simp
next
  case False
  have "(y - 1) div k = y div k"
  proof (rule int_div_pos_eq [where r = "y mod k - 1"])
    show "y - 1 = k * (y div k) + (y mod k - 1)" by simp
    have "0 \<le> y mod k" using assms by simp
    then show "0 \<le> y mod k - 1" using False by linarith
    show "y mod k - 1 < k" using assms pos_mod_bound [of k y] by linarith
  qed
  then show ?thesis using False by simp
qed

lemma dby_step: "days_before_year (y + 1) = days_before_year y + (if is_leap y then 366 else 365)"
proof -
  have a: "y div 4 = (y - 1) div 4 + (if y mod 4 = 0 then 1 else 0)" by (rule div_step) simp
  have b: "y div 100 = (y - 1) div 100 + (if y mod 100 = 0 then 1 else 0)" by (rule div_step) simp
  have c: "y div 400 = (y - 1) div 400 + (if y mod 400 = 0 then 1 else 0)" by (rule div_step) simp
  have "(100::int) dvd 400" "(4::int) dvd 100" by simp_all
  then have d: "y mod 400 = 0 \<Longrightarrow> y mod 100 = 0" and e: "y mod 100 = 0 \<Longrightarrow> y mod 4 = 0"
    using dvd_trans [of 100 400 y] dvd_trans [of 4 100 y] by (simp_all add: mod_eq_0_iff_dvd)
  show ?thesis unfolding days_before_year_def Let_def is_leap_def
  proof -
    define q4 where "q4 = (y - 1) div 4"
    define q100 where "q100 = (y - 1) div 100"
    define q400 where "q400 = (y - 1) div 400"
    have a': "y div 4 = q4 + (if y mod 4 = 0 then 1 else 0)" using a by (simp add: q4_def)
    have b': "y div 100 = q100 + (if y mod 100 = 0 then 1 else 0)" using b by (simp add: q100_def)
    have c': "y div 400 = q400 + (if y mod 400 = 0 then 1 else 0)" using c by (simp add: q400_def)
    have s: "y + 1 - 1 = y" by simp
    show "(y + 1 - 1) * 365 + (y + 1 - 1) div 4 - (y + 1 - 1) div 100 + (y + 1 - 1) div 400 =
      (y - 1) * 365 + (y - 1) div 4 - (y - 1) div 100 + (y - 1) div 400 +
      (if y mod 4 = 0 \<and> (y mod 100 \<noteq> 0 \<or> y mod 400 = 0) then 366 else 365)"
      unfolding s a' b' c' q4_def [symmetric] q100_def [symmetric] q400_def [symmetric]
      using d e by (cases "y mod 4 = 0"; cases "y mod 100 = 0"; cases "y mod 400 = 0") (simp_all add: algebra_simps)
  qed
qed


lemma dby_mono: "y \<le> y' \<Longrightarrow> days_before_year y \<le> days_before_year y'"
proof (induction y' rule: int_ge_induct)
  case base show ?case by simp
next
  case (step i)
  then show ?case using dby_step [of i] by (simp split: if_splits)
qed

lemma upto_1_12: "[1..12] = [1, 2, 3, 4, 5, 6, 7, 8, 9, 10, 11, 12 :: int]"
  by code_simp

lemma month_cases:
  assumes "1 \<le> m" "m \<le> 12"
  shows "m \<in> {1, 2, 3, 4, 5, 6, 7, 8, 9, 10, 11, 12 :: int}"
proof -
  have "m \<in> set [1..12]" using assms by simp
  then show ?thesis unfolding upto_1_12 by simp
qed

lemma doy_bounds:
  assumes "1 \<le> m" "m \<le> 12" "1 \<le> d" "d \<le> days_in_month y m"
  shows "1 \<le> days_before_month y m + d"
    and "days_before_month y m + d \<le> (if is_leap y then 366 else 365)"
  using month_cases [OF assms(1,2)] assms(3,4)
  by (auto simp: days_in_month_def days_before_month_def DAYS_IN_MONTH_def DAYS_BEFORE_MONTH_tab
           split: if_splits)

lemma dbm_next:
  assumes "1 \<le> m" "m < m'" "m' \<le> 12"
  shows "days_before_month y m + days_in_month y m \<le> days_before_month y m'"
proof -
  have a: "m \<in> {1, 2, 3, 4, 5, 6, 7, 8, 9, 10, 11, 12 :: int}" using assms by (intro month_cases) auto
  have b: "m' \<in> {1, 2, 3, 4, 5, 6, 7, 8, 9, 10, 11, 12 :: int}" using assms by (intro month_cases) auto
  show ?thesis using a b assms(2)
    by (auto simp: days_in_month_def days_before_month_def DAYS_IN_MONTH_def DAYS_BEFORE_MONTH_tab)
qed

lemma doy_inj:
  assumes "1 \<le> m" "m \<le> 12" "1 \<le> d" "d \<le> days_in_month y m"
      and "1 \<le> m'" "m' \<le> 12" "1 \<le> d'" "d' \<le> days_in_month y m'"
      and "days_before_month y m + d = days_before_month y m' + d'"
  shows "m = m' \<and> d = d'"
proof -
  have "\<not> m < m'" using dbm_next [of m m' y] assms by auto
  moreover have "\<not> m' < m" using dbm_next [of m' m y] assms by auto
  ultimately have "m = m'" by simp
  then show ?thesis using assms by simp
qed

lemma ymd2ord_year_bounds:
  assumes "1 \<le> m" "m \<le> 12" "1 \<le> d" "d \<le> days_in_month y m"
  shows "days_before_year y < ymd2ord y m d" and "ymd2ord y m d \<le> days_before_year (y + 1)"
  using doy_bounds [OF assms] dby_step [of y] by (auto simp: ymd2ord_def split: if_splits)

lemma ymd2ord_inj:
  assumes v: "1 \<le> m" "m \<le> 12" "1 \<le> d" "d \<le> days_in_month y m"
      and v': "1 \<le> m'" "m' \<le> 12" "1 \<le> d'" "d' \<le> days_in_month y' m'"
      and eq: "ymd2ord y m d = ymd2ord y' m' d'"
  shows "y = y' \<and> m = m' \<and> d = d'"
proof -
  have "\<not> y < y'"
  proof
    assume "y < y'"
    then have "days_before_year (y + 1) \<le> days_before_year y'" by (intro dby_mono) simp
    then show False using ymd2ord_year_bounds [OF v] ymd2ord_year_bounds [OF v'] eq by linarith
  qed
  moreover have "\<not> y' < y"
  proof
    assume "y' < y"
    then have "days_before_year (y' + 1) \<le> days_before_year y" by (intro dby_mono) simp
    then show False using ymd2ord_year_bounds [OF v] ymd2ord_year_bounds [OF v'] eq by linarith
  qed
  ultimately have yy: "y = y'" by simp
  then have "days_before_month y m + d = days_before_month y m' + d'"
    using eq by (simp add: ymd2ord_def)
  then show ?thesis using doy_inj [OF v v' [folded yy]] yy by simp
qed

lemma dby_consts: "days_before_year 1 = 0" "days_before_year 10000 = 3652059"
  by (simp_all add: days_before_year_def)

lemma ord2ymd_year_range:
  assumes "ord2ymd n = (y, m, d)" "0 < n" "n \<le> MAXORDINAL"
  shows "1 \<le> y \<and> y \<le> 9999"
proof -
  from ord2ymd_correct [OF assms(1)]
  have v: "1 \<le> m" "m \<le> 12" "1 \<le> d" "d \<le> days_in_month y m" and e: "ymd2ord y m d = n"
    by simp_all
  have "\<not> y < 1"
  proof
    assume "y < 1"
    then have "days_before_year (y + 1) \<le> days_before_year 1" by (intro dby_mono) simp
    then show False using ymd2ord_year_bounds(2) [OF v] e assms(2) dby_consts by linarith
  qed
  moreover have "\<not> 9999 < y"
  proof
    assume "9999 < y"
    then have "days_before_year 10000 \<le> days_before_year y" by (intro dby_mono) simp
    then show False using ymd2ord_year_bounds(1) [OF v] e assms(3) dby_consts
      by (simp add: MAXORDINAL_def)
  qed
  ultimately show ?thesis by simp
qed

lemma fromordinal_ok:
  assumes "0 < n" "n \<le> MAXORDINAL"
  shows "\<exists>dt. fromordinal n = Inr dt \<and> valid_date dt \<and> toordinal dt = n"
proof -
  obtain y m d where o: "ord2ymd n = (y, m, d)" by (cases "ord2ymd n") auto
  from ord2ymd_correct [OF o] ord2ymd_year_range [OF o assms]
  have "fromordinal n = Inr (Date y m d)" "valid_date (Date y m d)" "toordinal (Date y m d) = n"
    by (simp_all add: fromordinal_def o date_new_def valid_date_def toordinal_def MINYEAR_def MAXYEAR_def)
  then show ?thesis by blast
qed

lemma toordinal_range:
  assumes "valid_date dt"
  shows "0 < toordinal dt" and "toordinal dt \<le> MAXORDINAL"
proof -
  have v: "1 \<le> month dt" "month dt \<le> 12" "1 \<le> day dt" "day dt \<le> days_in_month (year dt) (month dt)"
    and y: "1 \<le> year dt" "year dt \<le> 9999"
    using assms by (simp_all add: valid_date_def MINYEAR_def MAXYEAR_def)
  have "days_before_year 1 \<le> days_before_year (year dt)" using y by (intro dby_mono) simp
  then show "0 < toordinal dt" using ymd2ord_year_bounds(1) [OF v] dby_consts
    by (simp add: toordinal_def)
  have "days_before_year (year dt + 1) \<le> days_before_year 10000" using y by (intro dby_mono) simp
  then show "toordinal dt \<le> MAXORDINAL" using ymd2ord_year_bounds(2) [OF v] dby_consts
    by (simp add: toordinal_def MAXORDINAL_def)
qed

lemma toordinal_inj:
  assumes "valid_date a" "valid_date b" "toordinal a = toordinal b"
  shows "a = b"
proof -
  have "year a = year b \<and> month a = month b \<and> day a = day b"
    using assms by (intro ymd2ord_inj) (simp_all add: valid_date_def toordinal_def)
  then show ?thesis by (simp add: date.expand)
qed

lemma fromordinal_toordinal:
  assumes "valid_date dt"
  shows "fromordinal (toordinal dt) = Inr dt"
proof -
  obtain dt' where d: "fromordinal (toordinal dt) = Inr dt'" "valid_date dt'" "toordinal dt' = toordinal dt"
    using fromordinal_ok [OF toordinal_range [OF assms]] by blast
  then have "dt' = dt" using assms by (intro toordinal_inj)
  then show ?thesis using d by simp
qed

lemma date_add_zero: "valid_date dt \<Longrightarrow> date_add dt 0 = Inr dt"
  using toordinal_range [of dt] by (simp add: date_add_def fromordinal_toordinal)

section \<open>The draw and the shifted date\<close>

lemma randint_eq:
  assumes "a \<le> b"
  shows "randint a b g = (Inr (a + int (g 0 mod nat (b + 1 - a))), (\<lambda>i. g (Suc i)))"
  using assms by (simp add: randint_def randrange_def randbelow_def Let_def)

lemma randint_bounds:
  assumes "a \<le> b" "fst (randint a b g) = Inr v"
  shows "a \<le> v" and "v \<le> b"
proof -
  have v: "v = a + int (g 0 mod nat (b + 1 - a))" using assms by (simp add: randint_eq)
  show "a \<le> v" by (simp add: v)
  have "g 0 mod nat (b + 1 - a) < nat (b + 1 - a)" using assms(1) by (intro mod_less_divisor) simp
  then have "int (g 0 mod nat (b + 1 - a)) < b + 1 - a" using assms(1) by linarith
  then show "v \<le> b" unfolding v by linarith
qed

lemma randint_reach:
  assumes "a \<le> v" "v \<le> b"
  shows "fst (randint a b (rng_const (nat (v - a)))) = Inr v"
proof -
  have "a \<le> b" using assms by simp
  moreover have "nat (v - a) mod nat (b + 1 - a) = nat (v - a)" using assms by (intro mod_less) simp
  ultimately show ?thesis using assms by (simp add: randint_eq rng_const_def)
qed

lemma inject_range_error:
  "\<bar>r\<bar> > m \<Longrightarrow> inject_date_variance d r m g = (Inl (ValueError (range_error_msg r m)), g)"
  by (simp add: inject_date_variance_def)

lemma inject_drawn:
  assumes "\<bar>r\<bar> \<le> m" "fst (randint (- \<bar>r\<bar>) \<bar>r\<bar> g) = Inr v"
  shows "fst (inject_date_variance d r m g) =
           (case timedelta v of Inl e \<Rightarrow> Inl e | Inr days \<Rightarrow> date_add d days)"
proof -
  have "randint (- \<bar>r\<bar>) \<bar>r\<bar> g = (Inr v, (\<lambda>i. g (Suc i)))"
    using assms(2) by (simp add: randint_eq)
  then show ?thesis using assms(1) by (simp add: inject_date_variance_def split: sum.splits)
qed

lemma date_add_cases:
  "date_add d v =
     (if 0 < toordinal d + v \<and> toordinal d + v \<le> MAXORDINAL
      then fromordinal (toordinal d + v) else Inl (OverflowError ''date value out of range''))"
  by (simp add: date_add_def Let_def)

lemma date_add_Inr:
  assumes "date_add d v = Inr d'"
  shows "valid_date d'" and "toordinal d' = toordinal d + v"
    and "0 < toordinal d + v" and "toordinal d + v \<le> MAXORDINAL"
proof -
  have r: "0 < toordinal d + v" "toordinal d + v \<le> MAXORDINAL"
    using assms by (auto simp: date_add_cases split: if_splits)
  then show "0 < toordinal d + v" "toordinal d + v \<le> MAXORDINAL" by simp_all
  from fromordinal_ok [OF r] assms r
  show "valid_date d'" "toordinal d' = toordinal d + v" by (auto simp: date_add_cases)
qed

lemma date_add_Inl:
  assumes "date_add d v = Inl e"
  shows "e = OverflowError ''date value out of range''"
    and "\<not> (0 < toordinal d + v \<and> toordinal d + v \<le> MAXORDINAL)"
proof -
  have n: "\<not> (0 < toordinal d + v \<and> toordinal d + v \<le> MAXORDINAL)"
  proof
    assume r: "0 < toordinal d + v \<and> toordinal d + v \<le> MAXORDINAL"
    then obtain dt where "fromordinal (toordinal d + v) = Inr dt" using fromordinal_ok by blast
    then show False using assms r by (simp add: date_add_cases)
  qed
  then show "\<not> (0 < toordinal d + v \<and> toordinal d + v \<le> MAXORDINAL)" .
  show "e = OverflowError ''date value out of range''" using assms n by (auto simp: date_add_cases)
qed

lemma timedelta_cases:
  "timedelta v = (if \<bar>v\<bar> > 999999999
     then Inl (OverflowError (timedelta_error v)) else Inr v)"
  by (simp add: timedelta_def)

lemma shift_Inr:
  assumes "(case timedelta v of Inl e \<Rightarrow> Inl e | Inr days \<Rightarrow> date_add d days) = Inr d'"
  shows "valid_date d'" and "toordinal d' = toordinal d + v"
    and "0 < toordinal d + v" and "toordinal d + v \<le> MAXORDINAL"
proof -
  have "date_add d v = Inr d'" using assms by (auto simp: timedelta_cases split: if_splits)
  from date_add_Inr [OF this]
  show "valid_date d'" "toordinal d' = toordinal d + v"
    "0 < toordinal d + v" "toordinal d + v \<le> MAXORDINAL" by simp_all
qed

lemma shift_Inl:
  assumes "valid_date d"
      and "(case timedelta v of Inl e \<Rightarrow> Inl e | Inr days \<Rightarrow> date_add d days) = Inl e"
  shows "\<exists>msg. e = OverflowError msg"
    and "\<not> (0 < toordinal d + v \<and> toordinal d + v \<le> MAXORDINAL)"
proof -
  note tr = toordinal_range [OF assms(1)]
  show "\<exists>msg. e = OverflowError msg"
    using assms(2) date_add_Inl(1) [of d v e] by (auto simp: timedelta_cases split: if_splits)
  show "\<not> (0 < toordinal d + v \<and> toordinal d + v \<le> MAXORDINAL)"
  proof (cases "\<bar>v\<bar> > 999999999")
    case True
    then show ?thesis using tr by (auto simp: MAXORDINAL_def)
  next
    case False
    then have "date_add d v = Inl e" using assms(2) by (simp add: timedelta_cases)
    then show ?thesis by (rule date_add_Inl(2))
  qed
qed

lemma shift_in_range:
  assumes "valid_date d" "0 < toordinal d + v" "toordinal d + v \<le> MAXORDINAL"
  shows "\<exists>d'. (case timedelta v of Inl e \<Rightarrow> Inl e | Inr days \<Rightarrow> date_add d days) = Inr d'
           \<and> valid_date d' \<and> toordinal d' = toordinal d + v"
proof -
  note tr = toordinal_range [OF assms(1)]
  have "\<not> \<bar>v\<bar> > 999999999" using tr assms(2,3) by (auto simp: MAXORDINAL_def)
  then show ?thesis using fromordinal_ok [OF assms(2,3)] assms(2,3)
    by (auto simp: timedelta_cases date_add_cases)
qed

lemma shift_no_ValueError:
  "(case timedelta v of Inl e \<Rightarrow> Inl e | Inr days \<Rightarrow> date_add d days) \<noteq> Inl (ValueError msg)"
  using date_add_Inl(1) [of d v "ValueError msg"]
  by (auto simp: timedelta_cases split: if_splits)

section \<open>Variance injection\<close>

lemma date_new_Inr: "date_new y m d = Inr dt \<Longrightarrow> dt = Date y m d \<and> valid_date dt"
  by (auto simp: date_new_def valid_date_def split: if_splits)

lemma date_new_Inl: "date_new y m d = Inl e \<Longrightarrow> \<exists>msg. e = ValueError msg"
  by (auto simp: date_new_def split: if_splits)

lemma strptime_Inl: "strptime s = Inl e \<Longrightarrow> \<exists>msg. e = ValueError msg"
  by (auto simp: strptime_def split: list.splits prod.splits if_splits dest: date_new_Inl)

lemma strptime_Inr: "strptime s = Inr dt \<Longrightarrow> valid_date dt"
  by (auto simp: strptime_def split: list.splits prod.splits if_splits dest: date_new_Inr)

lemma validate_date_Inr: "validate_date s = Inr dt \<Longrightarrow> valid_date dt"
  by (auto simp: validate_date_def split: sum.splits py_error.splits dest: strptime_Inr)

lemma validate_date_Inl: "validate_date s = Inl e \<Longrightarrow> e = ValueError invalid_format_msg"
  by (auto simp: validate_date_def split: sum.splits py_error.splits dest: strptime_Inl)

lemma abs_draw: "- \<bar>r\<bar> \<le> \<bar>r :: int\<bar>"
  by simp

lemma randint_total:
  "\<exists>v. fst (randint (- \<bar>r\<bar>) \<bar>r\<bar> g) = Inr v \<and> - \<bar>r\<bar> \<le> v \<and> v \<le> \<bar>r\<bar>"
proof -
  obtain v where v: "fst (randint (- \<bar>r\<bar>) \<bar>r\<bar> g) = Inr v"
    by (simp add: randint_eq [OF abs_draw])
  with randint_bounds [OF abs_draw v] show ?thesis by blast
qed

text \<open>
  C1. For a valid date \<open>d\<close> and a range \<open>r\<close> with \<open>|r| \<le> m\<close>, the offset \<open>v\<close> that is drawn
  lies in \<open>[-|r|, |r|]\<close>, and a date returned by \<open>inject_date_variance\<close> is a valid date
  whose ordinal is the ordinal of \<open>d\<close> plus \<open>v\<close>, so that it lies at most \<open>|r|\<close> days
  from \<open>d\<close> on either side. The only call that returns no date is one whose shifted
  ordinal leaves the calendar, and it raises \<^verbatim>\<open>OverflowError\<close>.
\<close>

theorem inject_within_range:
  assumes "valid_date d" "\<bar>r\<bar> \<le> m"
  shows "\<exists>v. fst (randint (- \<bar>r\<bar>) \<bar>r\<bar> g) = Inr v \<and> - \<bar>r\<bar> \<le> v \<and> v \<le> \<bar>r\<bar> \<and>
           (case fst (inject_date_variance d r m g) of
              Inr d' \<Rightarrow> valid_date d' \<and> toordinal d' = toordinal d + v
                       \<and> toordinal d - \<bar>r\<bar> \<le> toordinal d' \<and> toordinal d' \<le> toordinal d + \<bar>r\<bar>
            | Inl e \<Rightarrow> (\<exists>msg. e = OverflowError msg)
                       \<and> \<not> (0 < toordinal d + v \<and> toordinal d + v \<le> MAXORDINAL))"
proof -
  obtain v where v: "fst (randint (- \<bar>r\<bar>) \<bar>r\<bar> g) = Inr v" "- \<bar>r\<bar> \<le> v" "v \<le> \<bar>r\<bar>"
    using randint_total by blast
  let ?res = "case timedelta v of Inl e \<Rightarrow> Inl e | Inr days \<Rightarrow> date_add d days"
  have res: "fst (inject_date_variance d r m g) = ?res" using assms(2) v(1) by (rule inject_drawn)
  have "case ?res of
      Inr d' \<Rightarrow> valid_date d' \<and> toordinal d' = toordinal d + v
               \<and> toordinal d - \<bar>r\<bar> \<le> toordinal d' \<and> toordinal d' \<le> toordinal d + \<bar>r\<bar>
    | Inl e \<Rightarrow> (\<exists>msg. e = OverflowError msg)
               \<and> \<not> (0 < toordinal d + v \<and> toordinal d + v \<le> MAXORDINAL)"
  proof (cases ?res)
    case (Inl e)
    then show ?thesis using shift_Inl [OF assms(1) Inl] by simp
  next
    case (Inr d')
    then show ?thesis using shift_Inr(1,2) [OF Inr] v(2,3) by simp
  qed
  then show ?thesis using v res by auto
qed

theorem inject_within_range_witness:
  "valid_date (Date 2024 2 28) \<and> \<bar>10 :: int\<bar> \<le> 365 \<and>
   (\<exists>v. fst (randint (- \<bar>10\<bar>) \<bar>10\<bar> (rng_const 12)) = Inr v \<and> - \<bar>10\<bar> \<le> v \<and> v \<le> \<bar>10\<bar> \<and>
      (case fst (inject_date_variance (Date 2024 2 28) 10 365 (rng_const 12)) of
         Inr d' \<Rightarrow> valid_date d' \<and> toordinal d' = toordinal (Date 2024 2 28) + v
                  \<and> toordinal (Date 2024 2 28) - \<bar>10\<bar> \<le> toordinal d'
                  \<and> toordinal d' \<le> toordinal (Date 2024 2 28) + \<bar>10\<bar>
       | Inl e \<Rightarrow> (\<exists>msg. e = OverflowError msg)
                  \<and> \<not> (0 < toordinal (Date 2024 2 28) + v
                        \<and> toordinal (Date 2024 2 28) + v \<le> MAXORDINAL)))"
proof -
  have h1: "valid_date (Date 2024 2 28)" by code_simp
  have h2: "\<bar>10 :: int\<bar> \<le> 365" by simp
  show ?thesis using h1 h2 inject_within_range [OF h1 h2, of "rng_const 12"] by blast
qed

lemma inject_example: "fst (inject_date_variance (Date 2024 2 28) 10 365 (rng_const 12)) = Inr (Date 2024 3 1)"
  by code_simp

text \<open>
  C2. The range check of \<open>inject_date_variance\<close> fails exactly when \<open>|r| > m\<close>: then the
  call raises the \<^verbatim>\<open>ValueError\<close> whose message quotes \<open>r\<close> and \<open>m\<close>, and leaves the
  generator untouched; when \<open>|r| \<le> m\<close> the call raises no \<^verbatim>\<open>ValueError\<close> at all.
\<close>

theorem range_validation:
  "(\<bar>r\<bar> > m \<longrightarrow> inject_date_variance d r m g = (Inl (ValueError (range_error_msg r m)), g))
   \<and> (\<bar>r\<bar> \<le> m \<longrightarrow> (\<forall>msg. fst (inject_date_variance d r m g) \<noteq> Inl (ValueError msg)))
   \<and> range_error_msg r m =
       ''The specified range ('' @ str_int r @ '') exceeds the maximum allowed range (''
         @ str_int m @ '').''"
proof (intro conjI impI allI)
  assume "\<bar>r\<bar> > m"
  then show "inject_date_variance d r m g = (Inl (ValueError (range_error_msg r m)), g)"
    by (rule inject_range_error)
next
  fix msg
  assume le: "\<bar>r\<bar> \<le> m"
  obtain v where v: "fst (randint (- \<bar>r\<bar>) \<bar>r\<bar> g) = Inr v" using randint_total by blast
  show "fst (inject_date_variance d r m g) \<noteq> Inl (ValueError msg)"
    unfolding inject_drawn [OF le v] by (rule shift_no_ValueError)
next
  show "range_error_msg r m =
       ''The specified range ('' @ str_int r @ '') exceeds the maximum allowed range (''
         @ str_int m @ '').''"
    by (simp add: range_error_msg_def)
qed

theorem range_validation_witness:
  "\<bar>50 :: int\<bar> > 30
   \<and> inject_date_variance (Date 2023 10 26) 50 30 (rng_const 7)
       = (Inl (ValueError ''The specified range (50) exceeds the maximum allowed range (30).''),
          rng_const 7)
   \<and> \<bar>10 :: int\<bar> \<le> 365
   \<and> (\<forall>msg. fst (inject_date_variance (Date 2023 10 26) 10 365 (rng_const 7))
         \<noteq> Inl (ValueError msg))"
proof -
  have s: "str_int 50 = ''50''" "str_int 30 = ''30''" by code_simp+
  show ?thesis
    using range_validation [where r = 50 and m = 30 and d = "Date 2023 10 26" and g = "rng_const 7"]
      range_validation [where r = 10 and m = 365 and d = "Date 2023 10 26" and g = "rng_const 7"] s
    by simp
qed

text \<open>
  C10. The sign of the range does not matter: the call with \<open>-r\<close> raises the range error
  exactly when the call with \<open>r\<close> does, the two calls return the same result when the
  range is accepted, and the dates that can come out are the same.
\<close>

theorem inject_sign_symmetric:
  "((\<exists>msg. fst (inject_date_variance d (- r) m g) = Inl (ValueError msg))
      = (\<exists>msg. fst (inject_date_variance d r m g) = Inl (ValueError msg)))
   \<and> (\<bar>r\<bar> \<le> m \<longrightarrow> inject_date_variance d (- r) m g = inject_date_variance d r m g)
   \<and> {d'. \<exists>g. fst (inject_date_variance d (- r) m g) = Inr d'}
       = {d'. \<exists>g. fst (inject_date_variance d r m g) = Inr d'}"
proof (cases "\<bar>r\<bar> > m")
  case True
  then have "\<bar>- r\<bar> > m" by simp
  then show ?thesis using True by (simp add: inject_range_error)
next
  case False
  then have e: "inject_date_variance d (- r) m g = inject_date_variance d r m g" for g
    by (simp add: inject_date_variance_def)
  then show ?thesis using False by simp
qed

theorem inject_sign_symmetric_witness:
  "\<bar>10 :: int\<bar> \<le> 365
   \<and> inject_date_variance (Date 2023 10 26) (- 10) 365 (rng_const 3)
       = inject_date_variance (Date 2023 10 26) 10 365 (rng_const 3)
   \<and> fst (inject_date_variance (Date 2023 10 26) (- 10) 365 (rng_const 3)) = Inr (Date 2023 10 19)"
proof -
  have "fst (inject_date_variance (Date 2023 10 26) 10 365 (rng_const 3)) = Inr (Date 2023 10 19)"
    by code_simp
  then show ?thesis
    using inject_sign_symmetric [where d = "Date 2023 10 26" and r = 10 and m = 365 and g = "rng_const 3"] by simp
qed

section \<open>The program as a whole\<close>

lemma main_cases:
  "main pf \<lparr>arg_date = s, arg_range = r, arg_max_range = m, arg_format = f\<rparr> g now =
     (case validate_date s of
        Inl e \<Rightarrow> handle now e
      | Inr date_obj \<Rightarrow>
          (case fst (inject_date_variance date_obj r m g) of
             Inl e \<Rightarrow> handle now e
           | Inr modified_date \<Rightarrow>
               (case strftime pf modified_date f of
                  Inl e \<Rightarrow> handle now e
                | Inr formatted_date \<Rightarrow>
                    \<lparr>stdout = [formatted_date], stderr = [], exit_code = 0\<rparr>)))"
  by (simp add: main_def split: sum.splits)

lemma handle_ValueError:
  "handle now (ValueError msg) = \<lparr>stdout = [], stderr = [(now, ''ERROR'', ''Error: '' @ msg)], exit_code = 1\<rparr>"
  by (simp add: handle_def)

lemma handle_OverflowError:
  "handle now (OverflowError msg) =
     \<lparr>stdout = [], stderr = [(now, ''ERROR'', ''An unexpected error occurred: '' @ msg)], exit_code = 1\<rparr>"
  by (simp add: handle_def)

text \<open>
  C3, as stated, fails: \<open>main\<close> parses the date before it checks the range, so a run with
  \<open>|r| > m\<close> on a date string that does not parse reports the date, not the range.
\<close>

theorem range_error_not_always_reported:
  "\<bar>50 :: int\<bar> > 30
   \<and> stderr (main pf_copy \<lparr>arg_date = ''2023/10/26'', arg_range = 50, arg_max_range = 30,
                            arg_format = default_format\<rparr> (rng_const 0) noon)
       = [(noon, ''ERROR'', ''Error: '' @ invalid_format_msg)]
   \<and> stderr (main pf_copy \<lparr>arg_date = ''2023/10/26'', arg_range = 50, arg_max_range = 30,
                            arg_format = default_format\<rparr> (rng_const 0) noon)
       \<noteq> [(noon, ''ERROR'', ''Error: '' @ range_error_msg 50 30)]"
  by code_simp

text \<open>
  C3, amended. A run with \<open>|r| > m\<close> prints nothing, logs exactly one error record and
  exits with status 1. When the date string parses, the record is the range error,
  quoting \<open>r\<close> and \<open>m\<close>; when it does not, the record is the invalid-format error.
\<close>

theorem range_exceeded_run:
  assumes "\<bar>r\<bar> > m"
  shows "stdout (main pf \<lparr>arg_date = s, arg_range = r, arg_max_range = m, arg_format = f\<rparr> g now) = []
       \<and> exit_code (main pf \<lparr>arg_date = s, arg_range = r, arg_max_range = m, arg_format = f\<rparr> g now) = 1
       \<and> stderr (main pf \<lparr>arg_date = s, arg_range = r, arg_max_range = m, arg_format = f\<rparr> g now)
           = (case validate_date s of
                Inr date_obj \<Rightarrow> [(now, ''ERROR'', ''Error: '' @ range_error_msg r m)]
              | Inl e \<Rightarrow> [(now, ''ERROR'', ''Error: '' @ invalid_format_msg)])"
proof (cases "validate_date s")
  case (Inl e)
  then have "e = ValueError invalid_format_msg" by (rule validate_date_Inl)
  then show ?thesis using Inl by (simp add: main_cases handle_ValueError)
next
  case (Inr date_obj)
  then show ?thesis using assms by (simp add: main_cases inject_range_error handle_ValueError)
qed

theorem range_exceeded_run_witness:
  "\<bar>50 :: int\<bar> > 30
   \<and> stdout (main pf_copy \<lparr>arg_date = ''2023-10-26'', arg_range = 50, arg_max_range = 30,
                            arg_format = default_format\<rparr> (rng_const 0) noon) = []
   \<and> exit_code (main pf_copy \<lparr>arg_date = ''2023-10-26'', arg_range = 50, arg_max_range = 30,
                               arg_format = default_format\<rparr> (rng_const 0) noon) = 1
   \<and> stderr (main pf_copy \<lparr>arg_date = ''2023-10-26'', arg_range = 50, arg_max_range = 30,
                            arg_format = default_format\<rparr> (rng_const 0) noon)
       = [(noon, ''ERROR'', ''Error: The specified range (50) exceeds the maximum allowed range (30).'')]"
proof -
  have h: "\<bar>50 :: int\<bar> > 30" by simp
  have v: "validate_date ''2023-10-26'' = Inr (Date 2023 10 26)" by code_simp
  have m: "range_error_msg 50 30
      = ''The specified range (50) exceeds the maximum allowed range (30).''" by code_simp
  show ?thesis
    using h v m range_exceeded_run [OF h, where pf = pf_copy and s = "''2023-10-26''"
        and f = default_format and g = "rng_const 0" and now = noon]
    by simp
qed

text \<open>
  C5. With range 0 and a maximum \<open>m \<ge> 0\<close> the injection returns the date it was given,
  whatever the generator delivers, and the program prints that date formatted.
\<close>

theorem zero_range_identity:
  assumes "valid_date d" "0 \<le> m"
  shows "fst (inject_date_variance d 0 m g) = Inr d
       \<and> (validate_date s = Inr d \<longrightarrow>
            main pf \<lparr>arg_date = s, arg_range = 0, arg_max_range = m, arg_format = f\<rparr> g now
              = (case strftime pf d f of
                   Inl e \<Rightarrow> handle now e
                 | Inr formatted_date \<Rightarrow>
                     \<lparr>stdout = [formatted_date], stderr = [], exit_code = 0\<rparr>))"
proof -
  have le: "\<bar>0 :: int\<bar> \<le> m" using assms(2) by simp
  have v: "fst (randint (- \<bar>0\<bar>) \<bar>0\<bar> g) = Inr 0" by (simp add: randint_eq)
  have a: "fst (inject_date_variance d 0 m g) = Inr d"
    unfolding inject_drawn [OF le v] using assms(1) by (simp add: timedelta_cases date_add_zero)
  then show ?thesis by (simp add: main_cases)
qed

theorem zero_range_identity_witness:
  "valid_date (Date 2023 10 26) \<and> (0 :: int) \<le> 365
   \<and> fst (inject_date_variance (Date 2023 10 26) 0 365 (rng_const 41)) = Inr (Date 2023 10 26)
   \<and> validate_date ''2023-10-26'' = Inr (Date 2023 10 26)
   \<and> main pf_copy \<lparr>arg_date = ''2023-10-26'', arg_range = 0, arg_max_range = 365,
                    arg_format = default_format\<rparr> (rng_const 41) noon
       = \<lparr>stdout = [''2023-10-26''], stderr = [], exit_code = 0\<rparr>"
proof -
  have h1: "valid_date (Date 2023 10 26)" by code_simp
  have h2: "(0 :: int) \<le> 365" by simp
  have v: "validate_date ''2023-10-26'' = Inr (Date 2023 10 26)" by code_simp
  have f: "strftime pf_copy (Date 2023 10 26) default_format = Inr ''2023-10-26''" by code_simp
  show ?thesis
    using h1 h2 v f zero_range_identity [OF h1 h2, where g = "rng_const 41" and pf = pf_copy
        and s = "''2023-10-26''" and f = default_format and now = noon]
    by simp
qed

text \<open>
  C9. Within the permitted range the injection still fails when the shifted date leaves
  the calendar: the addition raises \<^verbatim>\<open>OverflowError\<close>, which \<open>main\<close> reports as an
  unexpected error, printing nothing and exiting with status 1.
\<close>

theorem inject_overflow:
  assumes "validate_date s = Inr d" "\<bar>r\<bar> \<le> m"
      and "fst (randint (- \<bar>r\<bar>) \<bar>r\<bar> g) = Inr v"
      and "\<not> (0 < toordinal d + v \<and> toordinal d + v \<le> MAXORDINAL)"
  shows "\<exists>msg. fst (inject_date_variance d r m g) = Inl (OverflowError msg)
           \<and> main pf \<lparr>arg_date = s, arg_range = r, arg_max_range = m, arg_format = f\<rparr> g now
               = \<lparr>stdout = [],
                  stderr = [(now, ''ERROR'', ''An unexpected error occurred: '' @ msg)],
                  exit_code = 1\<rparr>"
proof -
  have vd: "valid_date d" using assms(1) by (rule validate_date_Inr)
  let ?res = "case timedelta v of Inl e \<Rightarrow> Inl e | Inr days \<Rightarrow> date_add d days"
  have res: "fst (inject_date_variance d r m g) = ?res" using assms(2,3) by (rule inject_drawn)
  obtain e where e: "?res = Inl e"
    using shift_Inr(3,4) [where v = v and d = d] assms(4) by (cases ?res) auto
  obtain msg where "e = OverflowError msg" using shift_Inl(1) [OF vd e] by blast
  then show ?thesis using res e assms(1) by (simp add: main_cases handle_OverflowError)
qed

theorem inject_overflow_witness:
  "validate_date ''9999-12-31'' = Inr (Date 9999 12 31) \<and> \<bar>1 :: int\<bar> \<le> 365
   \<and> fst (randint (- \<bar>1\<bar>) \<bar>1\<bar> (rng_const 2)) = Inr 1
   \<and> \<not> (0 < toordinal (Date 9999 12 31) + 1 \<and> toordinal (Date 9999 12 31) + 1 \<le> MAXORDINAL)
   \<and> (\<exists>msg. fst (inject_date_variance (Date 9999 12 31) 1 365 (rng_const 2))
               = Inl (OverflowError msg)
         \<and> main pf_copy \<lparr>arg_date = ''9999-12-31'', arg_range = 1, arg_max_range = 365,
                          arg_format = default_format\<rparr> (rng_const 2) noon
             = \<lparr>stdout = [],
                stderr = [(noon, ''ERROR'', ''An unexpected error occurred: '' @ msg)],
                exit_code = 1\<rparr>)"
proof -
  have h1: "validate_date ''9999-12-31'' = Inr (Date 9999 12 31)" by code_simp
  have h2: "\<bar>1 :: int\<bar> \<le> 365" by simp
  have h3: "fst (randint (- \<bar>1\<bar>) \<bar>1\<bar> (rng_const 2)) = Inr 1" by code_simp
  have h4: "\<not> (0 < toordinal (Date 9999 12 31) + 1
               \<and> toordinal (Date 9999 12 31) + 1 \<le> MAXORDINAL)" by code_simp
  show ?thesis
    using h1 h2 h3 h4 inject_overflow [OF h1 h2 h3 h4, where pf = pf_copy and f = default_format and now = noon]
    by blast
qed

lemma underflow_example:
  "main pf_copy \<lparr>arg_date = ''0001-01-01'', arg_range = -1, arg_max_range = 365,
                  arg_format = default_format\<rparr> (rng_const 0) noon
     = \<lparr>stdout = [],
        stderr = [(noon, ''ERROR'', ''An unexpected error occurred: date value out of range'')],
        exit_code = 1\<rparr>"
  by code_simp

lemma inject_Inr_valid:
  assumes "fst (inject_date_variance d r m g) = Inr d'"
  shows "valid_date d'"
proof -
  have le: "\<bar>r\<bar> \<le> m" using assms by (cases "\<bar>r\<bar> > m") (simp_all add: inject_range_error)
  obtain v where v: "fst (randint (- \<bar>r\<bar>) \<bar>r\<bar> g) = Inr v" using randint_total by blast
  show ?thesis using assms shift_Inr(1) unfolding inject_drawn [OF le v] by blast
qed

text \<open>
  C6, as stated, fails at the end of the calendar: from 9999-12-31 with range 1 the offset
  \<open>+1\<close> is in the interval, but no state of the generator makes the injection return the
  date one day later, which does not exist.
\<close>

theorem endpoint_not_reachable_at_calendar_end:
  "valid_date (Date 9999 12 31) \<and> \<bar>1 :: int\<bar> \<le> 365 \<and> - \<bar>1 :: int\<bar> \<le> 1 \<and> (1 :: int) \<le> \<bar>1\<bar>
   \<and> \<not> (\<exists>g d'. fst (inject_date_variance (Date 9999 12 31) 1 365 g) = Inr d'
                 \<and> toordinal d' = toordinal (Date 9999 12 31) + 1)"
proof -
  have v: "valid_date (Date 9999 12 31)" by code_simp
  have t: "toordinal (Date 9999 12 31) = MAXORDINAL" by code_simp
  have "\<not> (\<exists>g d'. fst (inject_date_variance (Date 9999 12 31) 1 365 g) = Inr d'
                 \<and> toordinal d' = toordinal (Date 9999 12 31) + 1)"
  proof
    assume "\<exists>g d'. fst (inject_date_variance (Date 9999 12 31) 1 365 g) = Inr d'
                 \<and> toordinal d' = toordinal (Date 9999 12 31) + 1"
    then obtain g d' where a: "fst (inject_date_variance (Date 9999 12 31) 1 365 g) = Inr d'"
      and b: "toordinal d' = toordinal (Date 9999 12 31) + 1" by blast
    from inject_Inr_valid [OF a] have "toordinal d' \<le> MAXORDINAL" by (rule toordinal_range(2))
    then show False using b t by simp
  qed
  then show ?thesis using v by simp
qed

text \<open>
  C6, amended. For a valid date \<open>d\<close>, a range with \<open>|r| \<le> m\<close> and every \<open>v\<close> in
  \<open>[-|r|, |r|]\<close> there is a state of the generator under which \<open>v\<close> is the offset drawn;
  under it the injection returns the valid date \<open>v\<close> days from \<open>d\<close> when that date is in
  the calendar (ordinal in \<open>1..MAXORDINAL\<close>), and raises \<^verbatim>\<open>OverflowError\<close> otherwise.
\<close>

theorem every_offset_reachable:
  assumes "valid_date d" "\<bar>r\<bar> \<le> m" "- \<bar>r\<bar> \<le> v" "v \<le> \<bar>r\<bar>"
  shows "\<exists>g. fst (randint (- \<bar>r\<bar>) \<bar>r\<bar> g) = Inr v
           \<and> (if 0 < toordinal d + v \<and> toordinal d + v \<le> MAXORDINAL
               then \<exists>d'. fst (inject_date_variance d r m g) = Inr d'
                      \<and> valid_date d' \<and> toordinal d' = toordinal d + v
               else \<exists>msg. fst (inject_date_variance d r m g) = Inl (OverflowError msg))"
proof -
  define g where "g = rng_const (nat (v - (- \<bar>r\<bar>)))"
  have v: "fst (randint (- \<bar>r\<bar>) \<bar>r\<bar> g) = Inr v"
    unfolding g_def using assms(3,4) by (rule randint_reach)
  let ?res = "case timedelta v of Inl e \<Rightarrow> Inl e | Inr days \<Rightarrow> date_add d days"
  have res: "fst (inject_date_variance d r m g) = ?res" using assms(2) v by (rule inject_drawn)
  have "if 0 < toordinal d + v \<and> toordinal d + v \<le> MAXORDINAL
        then \<exists>d'. ?res = Inr d' \<and> valid_date d' \<and> toordinal d' = toordinal d + v
        else \<exists>msg. ?res = Inl (OverflowError msg)"
  proof (cases "0 < toordinal d + v \<and> toordinal d + v \<le> MAXORDINAL")
    case True
    then show ?thesis using shift_in_range [OF assms(1), of v] by simp
  next
    case False
    then obtain e where e: "?res = Inl e"
      using shift_Inr(3,4) [where v = v and d = d] by (cases ?res) auto
    then show ?thesis using False shift_Inl(1) [OF assms(1) e] by auto
  qed
  then show ?thesis using v res by auto
qed

theorem every_offset_reachable_witness:
  "valid_date (Date 2023 10 26) \<and> \<bar>10 :: int\<bar> \<le> 365 \<and> - \<bar>10 :: int\<bar> \<le> 10 \<and> (10 :: int) \<le> \<bar>10\<bar>
   \<and> 0 < toordinal (Date 2023 10 26) + 10 \<and> toordinal (Date 2023 10 26) + 10 \<le> MAXORDINAL
   \<and> (\<exists>g. fst (randint (- \<bar>10\<bar>) \<bar>10\<bar> g) = Inr 10
         \<and> (\<exists>d'. fst (inject_date_variance (Date 2023 10 26) 10 365 g) = Inr d'
               \<and> valid_date d' \<and> toordinal d' = toordinal (Date 2023 10 26) + 10))"
proof -
  have h1: "valid_date (Date 2023 10 26)" by code_simp
  have h2: "\<bar>10 :: int\<bar> \<le> 365" by simp
  have h3: "- \<bar>10 :: int\<bar> \<le> 10" by simp
  have h4: "(10 :: int) \<le> \<bar>10\<bar>" by simp
  have h5: "0 < toordinal (Date 2023 10 26) + 10 \<and> toordinal (Date 2023 10 26) + 10 \<le> MAXORDINAL"
    by code_simp
  show ?thesis using h1 h2 h3 h4 h5 every_offset_reachable [OF h1 h2 h3 h4] by simp
qed

lemma endpoints_example:
  "fst (inject_date_variance (Date 2023 10 26) 10 365 (rng_const 0)) = Inr (Date 2023 10 16)"
  "fst (inject_date_variance (Date 2023 10 26) 10 365 (rng_const 20)) = Inr (Date 2023 11 5)"
  by code_simp+




section \<open>Formatting and parsing\<close>

lemma of_char_digit: "k < 10 \<Longrightarrow> (of_char (digit_char k) :: nat) = 48 + k"
  by (simp add: digit_char_def)

lemma re_digit_digit:
  "k < 10 \<Longrightarrow> re_digit (digit_char k # rest) = [([digit_char k], rest)]"
  by (simp add: re_digit_def re_class_def in_range_def of_char_digit)

lemma str_nat_1: "n < 10 \<Longrightarrow> str_nat n = [digit_char n]"
  by (subst str_nat.simps) simp

lemma str_nat_2: "10 \<le> n \<Longrightarrow> n < 100 \<Longrightarrow> str_nat n = [digit_char (n div 10), digit_char (n mod 10)]"
  by (subst str_nat.simps) (simp add: str_nat_1)

lemma str_nat_3:
  "100 \<le> n \<Longrightarrow> n < 1000 \<Longrightarrow>
     str_nat n = [digit_char (n div 10 div 10), digit_char (n div 10 mod 10), digit_char (n mod 10)]"
  by (subst str_nat.simps) (simp add: str_nat_2)

lemma str_nat_4:
  "1000 \<le> n \<Longrightarrow> n < 10000 \<Longrightarrow>
     str_nat n = [digit_char (n div 10 div 10 div 10), digit_char (n div 10 div 10 mod 10),
                  digit_char (n div 10 mod 10), digit_char (n mod 10)]"
  by (subst str_nat.simps) (simp add: str_nat_3)

lemma digit_char_0: "digit_char 0 = CHR ''0''"
  by code_simp

lemma replicate_small:
  "replicate 3 c = [c, c, c]" "replicate 2 c = [c, c]"
  by (simp_all add: numeral_eq_Suc)

lemma zfill4:
  assumes "n < 10000"
  shows "zfill 4 (str_nat n) = [digit_char (n div 10 div 10 div 10), digit_char (n div 10 div 10 mod 10),
                  digit_char (n div 10 mod 10), digit_char (n mod 10)]"
proof -
  consider "n < 10" | "10 \<le> n" "n < 100" | "100 \<le> n" "n < 1000" | "1000 \<le> n" by linarith
  then show ?thesis
  proof cases
    case 1 then show ?thesis by (simp add: zfill_def str_nat_1 replicate_small digit_char_0)
  next
    case 2 then show ?thesis by (simp add: zfill_def str_nat_2 replicate_small digit_char_0)
  next
    case 3 then show ?thesis by (simp add: zfill_def str_nat_3 replicate_small digit_char_0)
  next
    case 4 then show ?thesis using assms by (simp add: zfill_def str_nat_4 replicate_small)
  qed
qed

lemma zfill2:
  assumes "n < 100"
  shows "zfill 2 (str_nat n) = [digit_char (n div 10), digit_char (n mod 10)]"
proof (cases "n < 10")
  case True then show ?thesis by (simp add: zfill_def str_nat_1 replicate_small digit_char_0)
next
  case False then show ?thesis using assms by (simp add: zfill_def str_nat_2 replicate_small)
qed

lemma format_regex_split:
  "format_regex s =
     concat (map (\<lambda>(Y, r1). map (\<lambda>((m, d), r5). ((Y, m, d), r5)) (md_matches r1)) (re_Y s))"
  unfolding format_regex_def md_matches_def
  by (simp add: map_concat comp_def case_prod_unfold)

lemma re_Y_digits:
  assumes "a < 10" "b < 10" "c < 10" "d < 10"
  shows "re_Y (digit_char a # digit_char b # digit_char c # digit_char d # rest)
         = [([digit_char a, digit_char b, digit_char c, digit_char d], rest)]"
  using assms by (simp add: re_Y_def re_seq_def re_digit_digit)

lemma digit_char_not_blank: "k < 10 \<Longrightarrow> digit_char k \<noteq> CHR '' ''"
proof
  assume "k < 10" "digit_char k = CHR '' ''"
  then have "(of_char (CHR '' '') :: nat) = 48 + k" using of_char_digit [of k] by simp
  then show False by simp
qed

lemma py_int_digits4:
  assumes "a < 10" "b < 10" "c < 10" "d < 10"
  shows "py_int [digit_char a, digit_char b, digit_char c, digit_char d]
         = int (1000 * a + 100 * b + 10 * c + d)"
  using assms by (simp add: py_int_def digit_char_not_blank of_char_digit)













lemma re_lit_hyphen: "re_lit CHR ''-'' (CHR ''-'' # rest) = [(''-'', rest)]"
  by (simp add: re_lit_def re_class_def)

lemma re_digit_is_digit: "is_digit c \<Longrightarrow> re_digit (c # rest) = [([c], rest)]"
  by (simp add: re_digit_def re_class_def is_digit_def)

lemma length4:
  assumes "length Y = 4"
  shows "\<exists>a b c d. Y = [a, b, c, d]"
  using assms by (auto simp: numeral_eq_Suc length_Suc_conv)

lemma re_Y_complete:
  assumes "length Y = 4" "list_all is_digit Y"
  shows "re_Y (Y @ rest) = [(Y, rest)]"
proof -
  obtain a b c d where Y: "Y = [a, b, c, d]" using length4 [OF assms(1)] by blast
  then show ?thesis using assms(2) by (simp add: re_Y_def re_seq_def re_digit_is_digit)
qed

lemma re_m_one:
  assumes "in_range CHR ''1'' CHR ''9'' c"
  shows "re_m (c # CHR ''-'' # rest) = [([c], CHR ''-'' # rest)]"
  using assms by (auto simp: re_m_def re_alt_def re_seq_def re_lit_def re_class_def in_range_def)

lemma re_m_ten:
  assumes "in_range CHR ''0'' CHR ''2'' c"
  shows "re_m (CHR ''1'' # c # rest) = [(''1'' @ [c], rest), (''1'', c # rest)]"
  using assms by (auto simp: re_m_def re_alt_def re_seq_def re_lit_def re_class_def in_range_def)

lemma re_m_zero:
  assumes "in_range CHR ''1'' CHR ''9'' c"
  shows "re_m (CHR ''0'' # c # rest) = [(''0'' @ [c], rest)]"
  using assms by (auto simp: re_m_def re_alt_def re_seq_def re_lit_def re_class_def in_range_def)

lemma re_lit_hyphen_digit:
  assumes "in_range CHR ''0'' CHR ''2'' c"
  shows "re_lit CHR ''-'' (c # rest) = []"
  using assms by (auto simp: re_lit_def re_class_def in_range_def)

lemma m_stage:
  assumes "month_text M"
  shows "concat (map (\<lambda>(m, r3). concat (map (\<lambda>(h2, r4). F m r4) (re_lit CHR ''-'' r3)))
           (re_m (M @ CHR ''-'' # rest))) = F M rest"
proof -
  from assms consider
      (one) c where "M = [c]" "in_range CHR ''1'' CHR ''9'' c"
    | (ten) c where "M = [CHR ''1'', c]" "in_range CHR ''0'' CHR ''2'' c"
    | (zero) c where "M = [CHR ''0'', c]" "in_range CHR ''1'' CHR ''9'' c"
    by (auto simp: month_text_def split: list.splits)
  then show ?thesis
  proof cases
    case one
    then show ?thesis by (simp add: re_m_one re_lit_hyphen)
  next
    case ten
    then show ?thesis by (simp add: re_m_ten re_lit_hyphen re_lit_hyphen_digit)
  next
    case zero
    then show ?thesis by (simp add: re_m_zero re_lit_hyphen)
  qed
qed

lemma d_stage:
  assumes "day_text D"
  shows "\<exists>tl. re_d D = (D, []) # tl"
proof -
  from assms consider
      (one) c where "D = [c]" "in_range CHR ''1'' CHR ''9'' c"
    | (thirty) c where "D = [CHR ''3'', c]" "in_range CHR ''0'' CHR ''1'' c"
    | (teen) c1 c2 where "D = [c1, c2]" "in_range CHR ''1'' CHR ''2'' c1" "is_digit c2"
    | (zero) c where "D = [CHR ''0'', c]" "in_range CHR ''1'' CHR ''9'' c"
    | (blank) c where "D = [CHR '' '', c]" "in_range CHR ''1'' CHR ''9'' c"
    by (auto simp: day_text_def split: list.splits)
  then show ?thesis
  proof cases
    case one
    then show ?thesis
      by (auto simp: re_d_def re_alt_def re_seq_def re_lit_def re_class_def re_digit_def in_range_def)
  next
    case thirty
    then show ?thesis
      by (auto simp: re_d_def re_alt_def re_seq_def re_lit_def re_class_def re_digit_def in_range_def)
  next
    case teen
    then show ?thesis
      by (auto simp: re_d_def re_alt_def re_seq_def re_lit_def re_class_def re_digit_def
          in_range_def is_digit_def)
  next
    case zero
    then show ?thesis
      by (auto simp: re_d_def re_alt_def re_seq_def re_lit_def re_class_def re_digit_def in_range_def)
  next
    case blank
    then show ?thesis
      by (auto simp: re_d_def re_alt_def re_seq_def re_lit_def re_class_def re_digit_def in_range_def)
  qed
qed

lemma format_regex_complete:
  assumes "accepted_text s Y M D"
  shows "\<exists>tl. format_regex s = ((Y, M, D), []) # tl"
proof -
  have s: "s = Y @ CHR ''-'' # M @ CHR ''-'' # D" and p: "length Y = 4" "list_all is_digit Y"
    "month_text M" "day_text D" using assms by (simp_all add: accepted_text_def)
  obtain tl where tl: "re_d D = (D, []) # tl" using d_stage [OF p(4)] by blast
  have "md_matches (CHR ''-'' # M @ CHR ''-'' # D) = map (\<lambda>(d, r5). ((M, d), r5)) (re_d D)"
    unfolding md_matches_def by (simp add: re_lit_hyphen m_stage [OF p(3)])
  then show ?thesis
    unfolding format_regex_split s by (simp add: re_Y_complete [OF p(1,2)] tl)
qed

lemma strptime_complete:
  assumes "accepted_text s Y M D"
  shows "strptime s = date_new (py_int Y) (py_int M) (py_int D)"
proof -
  obtain tl where "format_regex s = ((Y, M, D), []) # tl" using format_regex_complete [OF assms] by blast
  then show ?thesis by (simp add: strptime_def)
qed

lemma days_in_month_le_31:
  assumes "1 \<le> m" "m \<le> 12"
  shows "days_in_month y m \<le> 31"
  using month_cases [OF assms]
  by (auto simp: days_in_month_def DAYS_IN_MONTH_def)

lemma digits_sum:
  fixes n :: nat
  shows "1000 * (n div 10 div 10 div 10) + 100 * (n div 10 div 10 mod 10)
           + 10 * (n div 10 mod 10) + n mod 10 = n"
proof -
  define q1 where "q1 = n div 10"
  define q2 where "q2 = q1 div 10"
  have a: "n = 10 * q1 + n mod 10" by (simp add: q1_def)
  have b: "q1 = 10 * q2 + q1 mod 10" by (simp add: q2_def)
  have c: "q2 = 10 * (q2 div 10) + q2 mod 10" by simp
  have "1000 * (q2 div 10) + 100 * (q2 mod 10) + 10 * (q1 mod 10) + n mod 10 = n"
    using a b c by linarith
  then show ?thesis by (simp add: q1_def q2_def)
qed

lemma strftime_default:
  "strftime pf dt default_format =
     Inr ((if pads_year pf then zfill 4 (str_int (year dt)) else str_int (year dt))
            @ ''-'' @ zfill 2 (str_int (month dt)) @ ''-'' @ zfill 2 (str_int (day dt)))"
  by (simp add: default_format_def directive_def)

lemma year_text_unpadded:
  assumes "1000 \<le> year dt" "year dt \<le> 9999"
  shows "zfill 4 (str_int (year dt)) = str_int (year dt)"
proof -
  have "1000 \<le> nat (year dt)" "nat (year dt) < 10000" using assms by simp_all
  then have "length (str_nat (nat (year dt))) = 4" by (simp add: str_nat_4)
  then show ?thesis using assms by (simp add: zfill_def str_int_def)
qed

lemma is_digit_digit_char: "k < 10 \<Longrightarrow> is_digit (digit_char k)"
  by (simp add: is_digit_def in_range_def of_char_digit)

lemma month_texts:
  "\<forall>m \<in> set [1..12]. month_text (zfill 2 (str_int m)) \<and> py_int (zfill 2 (str_int m)) = m"
  by code_simp

lemma day_texts:
  "\<forall>d \<in> set [1..31]. day_text (zfill 2 (str_int d)) \<and> py_int (zfill 2 (str_int d)) = d"
  by code_simp

lemma strptime_strict:
  assumes "valid_date dt"
  shows "strptime (zfill 4 (str_int (year dt)) @ ''-'' @ zfill 2 (str_int (month dt)) @ ''-''
            @ zfill 2 (str_int (day dt))) = Inr dt"
proof -
  define n where "n = nat (year dt)"
  have y: "1 \<le> year dt" "year dt \<le> 9999"
    and m: "1 \<le> month dt" "month dt \<le> 12"
    and d: "1 \<le> day dt" "day dt \<le> days_in_month (year dt) (month dt)"
    using assms by (simp_all add: valid_date_def MINYEAR_def MAXYEAR_def)
  have n: "n < 10000" "int n = year dt" using y by (simp_all add: n_def)
  define a where "a = n div 10 div 10 div 10"
  define b where "b = n div 10 div 10 mod 10"
  define c where "c = n div 10 mod 10"
  define e where "e = n mod 10"
  have dig: "a < 10" "b < 10" "c < 10" "e < 10" using n(1) by (simp_all add: a_def b_def c_def e_def)
  have sum: "1000 * a + 100 * b + 10 * c + e = n" unfolding a_def b_def c_def e_def by (rule digits_sum)
  have Y: "zfill 4 (str_int (year dt)) = [digit_char a, digit_char b, digit_char c, digit_char e]"
    using y zfill4 [OF n(1)] by (simp add: str_int_def n_def a_def b_def c_def e_def)
  have Yv: "py_int (zfill 4 (str_int (year dt))) = year dt"
    unfolding Y using py_int_digits4 [OF dig] sum n(2) by simp
  have Yd: "length (zfill 4 (str_int (year dt))) = 4" "list_all is_digit (zfill 4 (str_int (year dt)))"
    unfolding Y using dig by (simp_all add: is_digit_digit_char)
  have M: "month_text (zfill 2 (str_int (month dt)))" "py_int (zfill 2 (str_int (month dt))) = month dt"
    using month_texts m by simp_all
  have "day dt \<le> 31" using d(2) days_in_month_le_31 [OF m, of "year dt"] by linarith
  then have D: "day_text (zfill 2 (str_int (day dt)))" "py_int (zfill 2 (str_int (day dt))) = day dt"
    using day_texts d(1) by simp_all
  have "accepted_text (zfill 4 (str_int (year dt)) @ ''-'' @ zfill 2 (str_int (month dt)) @ ''-''
            @ zfill 2 (str_int (day dt)))
          (zfill 4 (str_int (year dt))) (zfill 2 (str_int (month dt))) (zfill 2 (str_int (day dt)))"
    using Yd M(1) D(1) by (simp add: accepted_text_def)
  from strptime_complete [OF this]
  have "strptime (zfill 4 (str_int (year dt)) @ ''-'' @ zfill 2 (str_int (month dt)) @ ''-''
            @ zfill 2 (str_int (day dt))) = date_new (year dt) (month dt) (day dt)"
    by (simp add: Yv M(2) D(2))
  moreover have "date_new (year dt) (month dt) (day dt) = Inr dt"
    using y m d by (simp add: date_new_def MINYEAR_def MAXYEAR_def)
  ultimately show ?thesis by simp
qed

text \<open>
  C7, as stated, fails where the C library prints a year below 1000 without padding: the
  date 0812-02-29 is formatted as \<^verbatim>\<open>812-02-29\<close>, which the parser, wanting four digits
  for the year, refuses.
\<close>

theorem roundtrip_fails_unpadded_year:
  "valid_date (Date 812 2 29)
   \<and> strftime pf_copy (Date 812 2 29) default_format = Inr ''812-02-29''
   \<and> validate_date ''812-02-29'' = Inl (ValueError invalid_format_msg)"
  by code_simp

text \<open>
  C7, amended. Formatting a valid date with the default pattern and parsing the result
  with \<open>validate_date\<close> gives the date back whenever the year is at least 1000, and for
  every valid date where the platform pads the year to four digits.
\<close>

theorem format_parse_roundtrip_four_digit_year:
  assumes "valid_date dt" "pads_year pf \<or> 1000 \<le> year dt"
  shows "\<exists>s. strftime pf dt default_format = Inr s \<and> validate_date s = Inr dt"
proof -
  have "year dt \<le> 9999" using assms(1) by (simp add: valid_date_def MAXYEAR_def)
  then have "(if pads_year pf then zfill 4 (str_int (year dt)) else str_int (year dt))
      = zfill 4 (str_int (year dt))"
    using assms(2) year_text_unpadded [of dt] by auto
  then show ?thesis
    using strptime_strict [OF assms(1)] by (simp add: strftime_default validate_date_def)
qed

theorem format_parse_roundtrip_four_digit_year_witness:
  "valid_date (Date 2024 2 29) \<and> (pads_year pf_copy \<or> 1000 \<le> year (Date 2024 2 29))
   \<and> (\<exists>s. strftime pf_copy (Date 2024 2 29) default_format = Inr s
         \<and> validate_date s = Inr (Date 2024 2 29))
   \<and> strftime pf_copy (Date 2024 2 29) default_format = Inr ''2024-02-29''
   \<and> valid_date (Date 812 2 29) \<and> (pads_year pf_padded \<or> 1000 \<le> year (Date 812 2 29))
   \<and> (\<exists>s. strftime pf_padded (Date 812 2 29) default_format = Inr s
         \<and> validate_date s = Inr (Date 812 2 29))
   \<and> strftime pf_padded (Date 812 2 29) default_format = Inr ''0812-02-29''"
proof -
  have h1: "valid_date (Date 2024 2 29)" by code_simp
  have h2: "pads_year pf_copy \<or> 1000 \<le> year (Date 2024 2 29)" by simp
  have f1: "strftime pf_copy (Date 2024 2 29) default_format = Inr ''2024-02-29''" by code_simp
  have h3: "valid_date (Date 812 2 29)" by code_simp
  have h4: "pads_year pf_padded \<or> 1000 \<le> year (Date 812 2 29)" by (simp add: pf_padded_def)
  have f2: "strftime pf_padded (Date 812 2 29) default_format = Inr ''0812-02-29''" by code_simp
  show ?thesis
    using h1 h2 f1 h3 h4 f2 format_parse_roundtrip_four_digit_year [OF h1 h2]
      format_parse_roundtrip_four_digit_year [OF h3 h4]
    by blast
qed

section \<open>What the parser accepts\<close>
















end
